theory Spec2Isabelle
  imports Main "HOL-Library.Multiset"
begin

section \<open>Core model: shells and the shotgun\<close>

text \<open>
  The embedding follows \<^verbatim>\<open>buckshot_roulette_cli.py\<close>. Python's unbounded integers
  are \<open>int\<close>; the shotgun's \<open>index\<close> starts at 0 and is only ever incremented, so it is
  a \<open>nat\<close>. Exceptions are values of \<open>error\<close>, and a function that can raise returns
  \<open>error + 'a\<close> with \<open>Inl\<close> for the exception.
\<close>

datatype Shell = LIVE | BLANK

datatype error = RuntimeError | IndexError | ValueError | EOFError

record Shotgun =
  shells :: "Shell list"
  index :: nat

subsection \<open>The random source\<close>

text \<open>
  The module \<^verbatim>\<open>random\<close> is modelled as an arbitrary stream of natural numbers; a draw
  takes the head of the stream and reduces it into the requested range, so every result
  the library can return is the result for some stream.
\<close>

type_synonym rng = "nat \<Rightarrow> nat"

definition randbelow :: "nat \<Rightarrow> rng \<Rightarrow> nat \<times> rng" where
  "randbelow n r = (r 0 mod n, \<lambda>i. r (Suc i))"

definition randint :: "int \<Rightarrow> int \<Rightarrow> rng \<Rightarrow> error + (int \<times> rng)" where
  "randint a b r =
     (if b < a then Inl ValueError
      else (case randbelow (nat (b - a + 1)) r of (k, r') \<Rightarrow> Inr (a + int k, r')))"

definition swap :: "nat \<Rightarrow> nat \<Rightarrow> 'a list \<Rightarrow> 'a list" where
  "swap i j xs = xs[i := xs ! j, j := xs ! i]"

text \<open>
  \<^verbatim>\<open>random.shuffle\<close>: \<^verbatim>\<open>for i in reversed(range(1, len(x))): j = randbelow(i + 1);
  x[i], x[j] = x[j], x[i]\<close>. \<open>shuffle_from i\<close> runs the loop for the indices
  \<open>i, i - 1, ..., 1\<close>.
\<close>

fun shuffle_from :: "nat \<Rightarrow> 'a list \<Rightarrow> rng \<Rightarrow> 'a list \<times> rng" where
  "shuffle_from 0 xs r = (xs, r)"
| "shuffle_from (Suc k) xs r =
     (case randbelow (Suc k + 1) r of (j, r') \<Rightarrow> shuffle_from k (swap (Suc k) j xs) r')"

definition shuffle :: "'a list \<Rightarrow> rng \<Rightarrow> 'a list \<times> rng" where
  "shuffle xs r = shuffle_from (length xs - 1) xs r"

subsection \<open>Shotgun operations\<close>

definition load :: "int \<Rightarrow> int \<Rightarrow> rng \<Rightarrow> error + (Shotgun \<times> rng)" where
  "load min_shells max_shells r =
     (case randint min_shells max_shells r of
        Inl e \<Rightarrow> Inl e
      | Inr (n, r1) \<Rightarrow>
          (case randint 1 (n - 1) r1 of
             Inl e \<Rightarrow> Inl e
           | Inr (live_count, r2) \<Rightarrow>
               (let blanks = n - live_count in
                case shuffle (replicate (nat live_count) LIVE @ replicate (nat blanks) BLANK) r2 of
                  (sh, r3) \<Rightarrow> Inr (\<lparr>shells = sh, index = 0\<rparr>, r3))))"

definition remaining :: "Shotgun \<Rightarrow> int" where
  "remaining sg = int (length (shells sg)) - int (index sg)"

definition counts_remaining :: "Shotgun \<Rightarrow> nat \<times> nat" where
  "counts_remaining sg =
     (let rem = drop (index sg) (shells sg) in (count_list rem LIVE, count_list rem BLANK))"

definition peek_current :: "Shotgun \<Rightarrow> error + Shell" where
  "peek_current sg =
     (if index sg < length (shells sg) then Inr (shells sg ! index sg) else Inl IndexError)"

text \<open>
  \<open>fire\<close> returns what the call returns or raises together with the shotgun after the
  call, so that the state an exception leaves behind is part of the model.
\<close>

definition fire :: "Shotgun \<Rightarrow> (error + Shell) \<times> Shotgun" where
  "fire sg =
     (if index sg \<ge> length (shells sg) then (Inl RuntimeError, sg)
      else (Inr (shells sg ! index sg), sg\<lparr>index := index sg + 1\<rparr>))"

definition eject_current :: "Shotgun \<Rightarrow> (error + Shell) \<times> Shotgun" where
  "eject_current sg = fire sg"

text \<open>
  \<open>flip s\<close> is the expression \<^verbatim>\<open>Shell.BLANK if s is Shell.LIVE else Shell.LIVE\<close>, which
  \<^verbatim>\<open>invert_current\<close> and \<^verbatim>\<open>Inverter.use\<close> both evaluate.
\<close>

definition flip :: "Shell \<Rightarrow> Shell" where
  "flip s = (if s = LIVE then BLANK else LIVE)"

definition invert_current :: "Shotgun \<Rightarrow> Shotgun" where
  "invert_current sg =
     (if index sg \<ge> length (shells sg) then sg
      else sg\<lparr>shells := (shells sg)[index sg := flip (shells sg ! index sg)]\<rparr>)"

section \<open>Items, knowledge and actors\<close>

datatype ItemId =
    MAGNIFYING_GLASS | BEER | HANDCUFFS | HAND_SAW
  | INVERTER | BURNER_PHONE | CIGARETTE | ADRENALINE

record Knowledge =
  current_known :: "Shell option"
  known_positions :: "nat \<rightharpoonup> Shell"

definition Knowledge_new :: Knowledge where
  "Knowledge_new = \<lparr>current_known = None, known_positions = Map.empty\<rparr>"

record Actor =
  name :: string
  max_hp :: int
  hp :: int
  inventory :: "ItemId list"
  skip_next :: bool
  dmg_mult :: int
  ai :: bool
  knowledge :: Knowledge

definition is_alive :: "Actor \<Rightarrow> bool" where
  "is_alive a = (hp a > 0)"

definition heal :: "int \<Rightarrow> Actor \<Rightarrow> Actor" where
  "heal n a = a\<lparr>hp := min (max_hp a) (hp a + n)\<rparr>"

definition hurt :: "int \<Rightarrow> Actor \<Rightarrow> Actor" where
  "hurt n a = a\<lparr>hp := hp a - n\<rparr>"

definition take_item :: "ItemId \<Rightarrow> Actor \<Rightarrow> Actor" where
  "take_item item_id a = a\<lparr>inventory := inventory a @ [item_id]\<rparr>"

text \<open>
  \<^verbatim>\<open>list.remove\<close> deletes the first occurrence, as \<open>remove1\<close> does. No caller reads
  the value \<^verbatim>\<open>pop_item\<close> returns, so the model returns the actor only.
\<close>

definition pop_item :: "ItemId \<Rightarrow> Actor \<Rightarrow> Actor" where
  "pop_item item_id a =
     (if item_id \<in> set (inventory a) then a\<lparr>inventory := remove1 item_id (inventory a)\<rparr>
      else a)"

definition set_current_known :: "Shell option \<Rightarrow> Actor \<Rightarrow> Actor" where
  "set_current_known v a = a\<lparr>knowledge := (knowledge a)\<lparr>current_known := v\<rparr>\<rparr>"

section \<open>The game\<close>

record Config =
  min_shells :: int
  max_shells :: int
  player_max_hp :: int
  dealer_max_hp :: int
  items_per_round :: "int \<times> int"

definition Config_default :: Config where
  "Config_default =
     \<lparr>min_shells = 2, max_shells = 8, player_max_hp = 4, dealer_max_hp = 4,
      items_per_round = (2, 4)\<rparr>"

text \<open>
  The two \<^verbatim>\<open>Actor\<close> objects are shared by reference between the game and the item
  effects. A reference is a value of \<open>who\<close>; \<open>actor\<close> dereferences it and \<open>upd_actor\<close>
  writes through it, so \<open>user\<close> and \<open>target\<close> may alias.
\<close>

datatype who = P | D

text \<open>
  One constructor per \<^verbatim>\<open>game.log(...)\<close> call, carrying the interpolated values (for a
  stolen item its identity, which the registry maps to the printed name). Printing, and
  \<^verbatim>\<open>show_state\<close>, which only prints, are left out.
\<close>

datatype Msg =
    MsgGlass string Shell
  | MsgBeerEmpty string
  | MsgBeer string Shell
  | MsgHandcuffs string string
  | MsgHandSaw string
  | MsgInverter string
  | MsgPhoneNone string
  | MsgPhone int Shell
  | MsgSmoke string int int
  | MsgNothingToSteal string
  | MsgCancelSteal string
  | MsgSteal string ItemId string
  | MsgLive string string int int
  | MsgBlank string string
  | MsgSkip string
  | MsgNewRound

text \<open>
  A line read by \<^verbatim>\<open>input()\<close>, as the two prompt loops classify it after
  \<^verbatim>\<open>strip()\<close>: empty; accepted by \<^verbatim>\<open>isdigit()\<close> and read by \<^verbatim>\<open>int()\<close> (with its
  value); accepted by \<^verbatim>\<open>isdigit()\<close> but refused by \<^verbatim>\<open>int()\<close>, which raises
  \<^verbatim>\<open>ValueError\<close> (superscript digits, or more digits than the interpreter converts);
  \<^verbatim>\<open>s\<close>/\<^verbatim>\<open>self\<close>; \<^verbatim>\<open>d\<close>/\<^verbatim>\<open>dealer\<close> (case-insensitively); or anything else.
\<close>

datatype Ans = AEmpty | ADigits nat | ABadDigits | ASelf | ADealer | AOther

text \<open>
  \<open>rand\<close> is the state of the module \<^verbatim>\<open>random\<close> and \<open>stdin\<close> the lines still to be
  read from standard input (reading past the end raises \<^verbatim>\<open>EOFError\<close>); the other fields
  are those of \<^verbatim>\<open>Game\<close>.
\<close>

record Game =
  cfg :: Config
  player :: Actor
  dealer :: Actor
  turn :: who
  shotgun :: Shotgun
  round_no :: int
  transcript :: "Msg list"
  rand :: rng
  stdin :: "Ans list"

definition actor :: "Game \<Rightarrow> who \<Rightarrow> Actor" where
  "actor g w = (case w of P \<Rightarrow> player g | D \<Rightarrow> dealer g)"

definition upd_actor :: "who \<Rightarrow> (Actor \<Rightarrow> Actor) \<Rightarrow> Game \<Rightarrow> Game" where
  "upd_actor w f g =
     (case w of P \<Rightarrow> g\<lparr>player := f (player g)\<rparr> | D \<Rightarrow> g\<lparr>dealer := f (dealer g)\<rparr>)"

definition other :: "who \<Rightarrow> who" where
  "other a = (if a = P then D else P)"

definition log :: "Msg \<Rightarrow> Game \<Rightarrow> Game" where
  "log msg g = g\<lparr>transcript := transcript g @ [msg]\<rparr>"

subsection \<open>Item effects\<close>

definition MagnifyingGlass_use :: "who \<Rightarrow> who \<Rightarrow> Game \<Rightarrow> error + Game" where
  "MagnifyingGlass_use user target g =
     (case peek_current (shotgun g) of
        Inl e \<Rightarrow> Inl e
      | Inr shell \<Rightarrow>
          Inr (log (MsgGlass (name (actor g user)) shell)
                 (upd_actor user (set_current_known (Some shell)) g)))"

definition Beer_use :: "who \<Rightarrow> who \<Rightarrow> Game \<Rightarrow> error + Game" where
  "Beer_use user target g =
     (if remaining (shotgun g) = 0 then Inr (log (MsgBeerEmpty (name (actor g user))) g)
      else (case eject_current (shotgun g) of
              (Inl e, sg) \<Rightarrow> Inl e
            | (Inr s, sg) \<Rightarrow>
                Inr (log (MsgBeer (name (actor g user)) s)
                       (upd_actor (other user) (set_current_known None)
                          (upd_actor user (set_current_known None) (g\<lparr>shotgun := sg\<rparr>))))))"

definition Handcuffs_use :: "who \<Rightarrow> who \<Rightarrow> Game \<Rightarrow> error + Game" where
  "Handcuffs_use user target g =
     (let g1 = upd_actor target (\<lambda>a. a\<lparr>skip_next := True\<rparr>) g
      in Inr (log (MsgHandcuffs (name (actor g1 user)) (name (actor g1 target))) g1))"

definition HandSaw_use :: "who \<Rightarrow> who \<Rightarrow> Game \<Rightarrow> error + Game" where
  "HandSaw_use user target g =
     (let g1 = upd_actor user (\<lambda>a. a\<lparr>dmg_mult := 2\<rparr>) g
      in Inr (log (MsgHandSaw (name (actor g1 user))) g1))"

definition Inverter_use :: "who \<Rightarrow> who \<Rightarrow> Game \<Rightarrow> error + Game" where
  "Inverter_use user target g =
     (let g1 = g\<lparr>shotgun := invert_current (shotgun g)\<rparr>;
          g2 = (case current_known (knowledge (actor g1 user)) of
                  None \<Rightarrow> g1
                | Some k \<Rightarrow> upd_actor user (set_current_known (Some (flip k))) g1)
      in Inr (log (MsgInverter (name (actor g2 user))) g2))"

definition BurnerPhone_use :: "who \<Rightarrow> who \<Rightarrow> Game \<Rightarrow> error + Game" where
  "BurnerPhone_use user target g =
     (let rem = remaining (shotgun g) in
      if rem \<le> 1 then Inr (log (MsgPhoneNone (name (actor g user))) g)
      else (case randint 1 (rem - 1) (rand g) of
              Inl e \<Rightarrow> Inl e
            | Inr (rel_idx, r) \<Rightarrow>
                (let abs_idx = nat (int (index (shotgun g)) + rel_idx) in
                 if abs_idx < length (shells (shotgun g)) then
                   (let shell = shells (shotgun g) ! abs_idx in
                    Inr (log (MsgPhone (rel_idx + 1) shell)
                           (upd_actor user
                              (\<lambda>a. a\<lparr>knowledge := (knowledge a)
                                     \<lparr>known_positions := (known_positions (knowledge a))(abs_idx \<mapsto> shell)\<rparr>\<rparr>)
                              (g\<lparr>rand := r\<rparr>))))
                 else Inl IndexError)))"

definition Cigarette_use :: "who \<Rightarrow> who \<Rightarrow> Game \<Rightarrow> error + Game" where
  "Cigarette_use user target g =
     (let before = hp (actor g user);
          g1 = upd_actor user (heal 1) g
      in Inr (log (MsgSmoke (name (actor g1 user)) before (hp (actor g1 user))) g1))"

subsection \<open>Random selection\<close>

definition choice :: "'a list \<Rightarrow> rng \<Rightarrow> error + ('a \<times> rng)" where
  "choice xs r =
     (if xs = [] then Inl IndexError
      else (case randbelow (length xs) r of (j, r') \<Rightarrow> Inr (xs ! j, r')))"

text \<open>
  \<^verbatim>\<open>random.sample(population, k)\<close> for a population of at most 21 elements, where
  CPython selects from a copy of the population: \<^verbatim>\<open>for i in range(k):
  j = randbelow(n - i); result[i] = pool[j]; pool[j] = pool[n - i - 1]\<close>.
  \<open>sample_from pool m k\<close> runs the last \<open>k\<close> iterations, \<open>m\<close> being \<open>n - i\<close>.
\<close>

fun sample_from :: "'a list \<Rightarrow> nat \<Rightarrow> nat \<Rightarrow> rng \<Rightarrow> 'a list \<times> rng" where
  "sample_from pool m 0 r = ([], r)"
| "sample_from pool m (Suc k) r =
     (case randbelow m r of
        (j, r1) \<Rightarrow>
          (case sample_from (pool[j := pool ! (m - 1)]) (m - 1) k r1 of
             (res, r2) \<Rightarrow> (pool ! j # res, r2)))"

definition sample :: "'a list \<Rightarrow> int \<Rightarrow> rng \<Rightarrow> error + ('a list \<times> rng)" where
  "sample population k r =
     (if \<not> (0 \<le> k \<and> k \<le> int (length population)) then Inl ValueError
      else Inr (sample_from population (length population) (nat k) r))"

definition item_pool :: "ItemId list" where
  "item_pool =
     [MAGNIFYING_GLASS, BEER, HANDCUFFS, HAND_SAW, INVERTER, BURNER_PHONE, CIGARETTE, ADRENALINE]"

subsection \<open>Dealing items\<close>

text \<open>One iteration of the loop of \<^verbatim>\<open>deal_items\<close>, for the actor \<open>w\<close>.\<close>

definition deal_one :: "who \<Rightarrow> Game \<Rightarrow> error + Game" where
  "deal_one w g =
     (case randint (fst (items_per_round (cfg g))) (snd (items_per_round (cfg g))) (rand g) of
        Inl e \<Rightarrow> Inl e
      | Inr (k, r1) \<Rightarrow>
          (case sample item_pool k r1 of
             Inl e \<Rightarrow> Inl e
           | Inr (items, r2) \<Rightarrow>
               Inr (upd_actor w (\<lambda>a. a\<lparr>inventory := [] @ items, knowledge := Knowledge_new\<rparr>)
                      (g\<lparr>rand := r2\<rparr>))))"

definition deal_items :: "Game \<Rightarrow> error + Game" where
  "deal_items g = (case deal_one P g of Inl e \<Rightarrow> Inl e | Inr g1 \<Rightarrow> deal_one D g1)"

subsection \<open>Prompts\<close>

text \<open>
  The \<^verbatim>\<open>while True\<close> loop of \<^verbatim>\<open>prompt_choose_item\<close> over the remaining input lines;
  \<open>invt\<close> is the inventory the index map was built from. It returns the choice and the
  input left; a line that passes \<^verbatim>\<open>isdigit()\<close> and that \<^verbatim>\<open>int()\<close> refuses raises
  \<^verbatim>\<open>ValueError\<close>.
\<close>

fun choose_loop :: "ItemId list \<Rightarrow> Ans list \<Rightarrow> error + (ItemId option \<times> Ans list)" where
  "choose_loop invt [] = Inl EOFError"
| "choose_loop invt (AEmpty # rest) = Inr (None, rest)"
| "choose_loop invt (ADigits n # rest) =
     (if 1 \<le> n \<and> n \<le> length invt then Inr (Some (invt ! (n - 1)), rest)
      else choose_loop invt rest)"
| "choose_loop invt (ABadDigits # rest) = Inl ValueError"
| "choose_loop invt (_ # rest) = choose_loop invt rest"

definition prompt_choose_item :: "who \<Rightarrow> Game \<Rightarrow> error + (ItemId option \<times> Game)" where
  "prompt_choose_item a g =
     (if ai (actor g a) \<or> inventory (actor g a) = [] then Inr (None, g)
      else (case choose_loop (inventory (actor g a)) (stdin g) of
              Inl e \<Rightarrow> Inl e
            | Inr (None, rest) \<Rightarrow> Inr (None, g\<lparr>stdin := rest\<rparr>)
            | Inr (Some iid, rest) \<Rightarrow>
                Inr (Some iid, upd_actor a (pop_item iid) (g\<lparr>stdin := rest\<rparr>))))"

text \<open>The aiming loop of \<^verbatim>\<open>turn_loop\<close>: \<open>True\<close> for self, \<open>False\<close> for the dealer.\<close>

fun aim_loop :: "Ans list \<Rightarrow> error + (bool \<times> Ans list)" where
  "aim_loop [] = Inl EOFError"
| "aim_loop (ASelf # rest) = Inr (True, rest)"
| "aim_loop (ADealer # rest) = Inr (False, rest)"
| "aim_loop (_ # rest) = aim_loop rest"

subsection \<open>Adrenaline and the item registry\<close>

text \<open>Lines 226 to 229 of \<^verbatim>\<open>Adrenaline.use\<close>: who picks the item to steal.\<close>

definition steal_choice :: "who \<Rightarrow> who \<Rightarrow> Game \<Rightarrow> error + (ItemId option \<times> Game)" where
  "steal_choice user target g =
     (if ai (actor g user) then
        (case choice (inventory (actor g target)) (rand g) of
           Inl e \<Rightarrow> Inl e
         | Inr (steal_id, r) \<Rightarrow> Inr (Some steal_id, g\<lparr>rand := r\<rparr>))
      else prompt_choose_item target g)"

text \<open>Reading and writing actors through references.\<close>

lemma actor_log [simp]: "actor (log m g) w = actor g w"
  by (simp add: actor_def log_def split: who.splits)

lemma actor_upd_same [simp]: "actor (upd_actor w f g) w = f (actor g w)"
  by (simp add: actor_def upd_actor_def split: who.splits)

lemma actor_upd_other [simp]: "v \<noteq> w \<Longrightarrow> actor (upd_actor w f g) v = actor g v"
  by (cases v; cases w) (simp_all add: actor_def upd_actor_def)

lemma actor_fields [simp]:
  "actor (g\<lparr>stdin := inp\<rparr>) w = actor g w"
  "actor (g\<lparr>rand := r\<rparr>) w = actor g w"
  "actor (g\<lparr>shotgun := sg\<rparr>) w = actor g w"
  "actor (g\<lparr>transcript := tr\<rparr>) w = actor g w"
  "actor (g\<lparr>turn := t\<rparr>) w = actor g w"
  "actor (g\<lparr>round_no := n\<rparr>) w = actor g w"
  by (simp_all add: actor_def split: who.splits)

lemma upd_actor_fields [simp]:
  "shotgun (upd_actor w f g) = shotgun g"
  "turn (upd_actor w f g) = turn g"
  "cfg (upd_actor w f g) = cfg g"
  "round_no (upd_actor w f g) = round_no g"
  "transcript (upd_actor w f g) = transcript g"
  "rand (upd_actor w f g) = rand g"
  "stdin (upd_actor w f g) = stdin g"
  by (simp_all add: upd_actor_def split: who.splits)

lemma log_fields [simp]:
  "shotgun (log m g) = shotgun g"
  "turn (log m g) = turn g"
  "cfg (log m g) = cfg g"
  "round_no (log m g) = round_no g"
  "transcript (log m g) = transcript g @ [m]"
  "rand (log m g) = rand g"
  "stdin (log m g) = stdin g"
  by (simp_all add: log_def)

lemma other_simps [simp]:
  "other P = D" "other D = P" "other (other w) = w" "other w \<noteq> w" "w \<noteq> other w"
  by (cases w; simp add: other_def)+

lemma flip_simps [simp]: "flip LIVE = BLANK" "flip BLANK = LIVE" "flip (flip s) = s" "flip s \<noteq> s"
  by (cases s; simp add: flip_def)+

lemma pop_item_fields [simp]:
  "name (pop_item i a) = name a" "hp (pop_item i a) = hp a" "max_hp (pop_item i a) = max_hp a"
  "skip_next (pop_item i a) = skip_next a" "dmg_mult (pop_item i a) = dmg_mult a"
  "ai (pop_item i a) = ai a" "knowledge (pop_item i a) = knowledge a"
  by (simp_all add: pop_item_def)

lemma length_inventory_pop_item: "length (inventory (pop_item i a)) \<le> length (inventory a)"
  by (simp add: pop_item_def length_remove1)

lemma length_inventory_pop_item_mem:
  "i \<in> set (inventory a) \<Longrightarrow> length (inventory (pop_item i a)) < length (inventory a)"
  using length_pos_if_in_set[of i "inventory a"] by (simp add: pop_item_def length_remove1)

lemma choose_loop_Some:
  "choose_loop invt inp = Inr (Some i, rest) \<Longrightarrow> i \<in> set invt \<and> length rest < length inp"
  by (induction invt inp rule: choose_loop.induct) (auto split: if_splits)

lemma choose_loop_None:
  "choose_loop invt inp = Inr (None, rest) \<Longrightarrow> length rest < length inp"
  by (induction invt inp rule: choose_loop.induct) (auto split: if_splits)

lemma prompt_choose_item_Some:
  assumes "prompt_choose_item a g = Inr (Some i, g1)"
  shows "length (inventory (actor g1 a)) < length (inventory (actor g a))"
  using assms
  by (auto simp add: prompt_choose_item_def length_inventory_pop_item_mem
      split: if_splits sum.splits option.splits dest!: choose_loop_Some)

lemma steal_choice_Some:
  assumes "steal_choice user target g = Inr (Some i, g1)"
  shows "length (inventory (actor (upd_actor target (pop_item i) g1) target))
           < length (inventory (actor g target))"
proof (cases "ai (actor g user)")
  case True
  with assms obtain r where c: "choice (inventory (actor g target)) (rand g) = Inr (i, r)"
    and g1: "g1 = g\<lparr>rand := r\<rparr>"
    by (auto simp add: steal_choice_def split: sum.splits)
  from c have "i \<in> set (inventory (actor g target))"
    by (auto simp add: choice_def randbelow_def split: if_splits)
  moreover have "actor g1 target = actor g target"
    using g1 by simp
  ultimately show ?thesis by (simp add: length_inventory_pop_item_mem)
next
  case False
  with assms have "prompt_choose_item target g = Inr (Some i, g1)"
    by (simp add: steal_choice_def)
  from prompt_choose_item_Some[OF this] show ?thesis
    using length_inventory_pop_item[of i "actor g1 target"] by simp
qed

text \<open>
  \<open>item_use iid\<close> is \<^verbatim>\<open>ITEM_REGISTRY[iid].use\<close>. The last equation is
  \<^verbatim>\<open>Adrenaline.use\<close>, which dispatches on the stolen item and so may call itself; each
  call finds the target's inventory shorter.
\<close>

function item_use :: "ItemId \<Rightarrow> who \<Rightarrow> who \<Rightarrow> Game \<Rightarrow> error + Game" where
  "item_use MAGNIFYING_GLASS user target g = MagnifyingGlass_use user target g"
| "item_use BEER user target g = Beer_use user target g"
| "item_use HANDCUFFS user target g = Handcuffs_use user target g"
| "item_use HAND_SAW user target g = HandSaw_use user target g"
| "item_use INVERTER user target g = Inverter_use user target g"
| "item_use BURNER_PHONE user target g = BurnerPhone_use user target g"
| "item_use CIGARETTE user target g = Cigarette_use user target g"
| "item_use ADRENALINE user target g =
     (if inventory (actor g target) = [] then
        Inr (log (MsgNothingToSteal (name (actor g user))) g)
      else (case steal_choice user target g of
              Inl e \<Rightarrow> Inl e
            | Inr (None, g1) \<Rightarrow> Inr (log (MsgCancelSteal (name (actor g1 user))) g1)
            | Inr (Some steal_id, g1) \<Rightarrow>
                (let g2 = upd_actor target (pop_item steal_id) g1;
                     g3 = log (MsgSteal (name (actor g2 user)) steal_id (name (actor g2 target))) g2
                 in item_use steal_id user target g3)))"
  by pat_completeness auto
termination
  by (relation "measure (\<lambda>(i, user, target, g). length (inventory (actor g target)))")
     (auto dest: steal_choice_Some)

lemma inventory_set_current_known [simp]: "inventory (set_current_known v a) = inventory a"
  by (simp add: set_current_known_def)

lemma inventory_upd_actor_keep:
  assumes "\<And>a. inventory (f a) = inventory a"
  shows "inventory (actor (upd_actor w f g) v) = inventory (actor g v)"
  using assms by (cases "v = w") simp_all

lemma basic_use_inventory:
  "MagnifyingGlass_use user target g = Inr g' \<Longrightarrow> inventory (actor g' w) = inventory (actor g w)"
  "Beer_use user target g = Inr g' \<Longrightarrow> inventory (actor g' w) = inventory (actor g w)"
  "Handcuffs_use user target g = Inr g' \<Longrightarrow> inventory (actor g' w) = inventory (actor g w)"
  "HandSaw_use user target g = Inr g' \<Longrightarrow> inventory (actor g' w) = inventory (actor g w)"
  "Inverter_use user target g = Inr g' \<Longrightarrow> inventory (actor g' w) = inventory (actor g w)"
  "BurnerPhone_use user target g = Inr g' \<Longrightarrow> inventory (actor g' w) = inventory (actor g w)"
  "Cigarette_use user target g = Inr g' \<Longrightarrow> inventory (actor g' w) = inventory (actor g w)"
  by (auto simp add: MagnifyingGlass_use_def Beer_use_def Handcuffs_use_def HandSaw_use_def
      Inverter_use_def BurnerPhone_use_def Cigarette_use_def Let_def heal_def
      inventory_upd_actor_keep
      split: sum.splits prod.splits if_splits option.splits)

lemma prompt_choose_item_inventory:
  assumes "prompt_choose_item a g = Inr (x, g1)"
  shows "length (inventory (actor g1 w)) \<le> length (inventory (actor g w))"
proof (cases "w = a")
  case True
  with assms show ?thesis
    by (auto simp add: prompt_choose_item_def length_inventory_pop_item
        split: if_splits sum.splits option.splits)
next
  case False
  with assms show ?thesis
    by (auto simp add: prompt_choose_item_def split: if_splits sum.splits option.splits)
qed

lemma steal_choice_inventory:
  assumes "steal_choice user target g = Inr (x, g1)"
  shows "length (inventory (actor g1 w)) \<le> length (inventory (actor g w))"
  using assms
  by (auto simp add: steal_choice_def dest: prompt_choose_item_inventory
      split: if_splits sum.splits)

lemma pop_inventory_le:
  "length (inventory (actor (upd_actor t (pop_item i) g) w)) \<le> length (inventory (actor g w))"
  by (cases "w = t") (simp_all add: length_inventory_pop_item)

lemma item_use_inventory:
  "item_use iid user target g = Inr g' \<Longrightarrow>
     length (inventory (actor g' w)) \<le> length (inventory (actor g w))"
proof (induction iid user target g arbitrary: g' rule: item_use.induct)
  case (8 user target g)
  show ?case
  proof (cases "inventory (actor g target) = []")
    case True
    with "8.prems" show ?thesis by auto
  next
    case False
    show ?thesis
    proof (cases "steal_choice user target g")
      case (Inl e)
      with False "8.prems" show ?thesis by simp
    next
      case (Inr p)
      obtain x g1 where p: "p = (x, g1)" by (cases p)
      note le1 = steal_choice_inventory[OF Inr[unfolded p], of w]
      show ?thesis
      proof (cases x)
        case None
        with False Inr p "8.prems" le1 show ?thesis by auto
      next
        case (Some sid)
        let ?g2 = "upd_actor target (pop_item sid) g1"
        let ?g3 = "log (MsgSteal (name (actor ?g2 user)) sid (name (actor ?g2 target))) ?g2"
        from False Inr p Some "8.prems" have u: "item_use sid user target ?g3 = Inr g'"
          by (simp add: Let_def)
        from "8.IH"[OF False Inr[unfolded p Some] refl refl refl refl u]
        have "length (inventory (actor g' w)) \<le> length (inventory (actor ?g3 w))" .
        also have "\<dots> \<le> length (inventory (actor g1 w))"
          using pop_inventory_le[of target sid g1 w] by simp
        finally show ?thesis using le1 by simp
      qed
    qed
  qed
qed (simp_all add: basic_use_inventory)

subsection \<open>The item phase\<close>

text \<open>
  The \<^verbatim>\<open>while True\<close> loop of \<^verbatim>\<open>use_item_flow\<close> for a human actor. Every
  iteration that goes on has taken an item out of the actor's inventory.
  \<^verbatim>\<open>show_state\<close> only prints.
\<close>

function use_item_loop :: "who \<Rightarrow> Game \<Rightarrow> error + Game" where
  "use_item_loop a g =
     (case prompt_choose_item a g of
        Inl e \<Rightarrow> Inl e
      | Inr (None, g1) \<Rightarrow> Inr g1
      | Inr (Some iid, g1) \<Rightarrow>
          (case item_use iid a (other a) g1 of
             Inl e \<Rightarrow> Inl e
           | Inr g2 \<Rightarrow> use_item_loop a g2))"
  by pat_completeness auto
termination
proof (relation "measure (\<lambda>(a, g). length (inventory (actor g a)))")
  show "wf (measure (\<lambda>(a, g). length (inventory (actor g a))))" by simp
next
  fix a g x2 x1 g1 iid g2
  assume "prompt_choose_item a g = Inr x2" "(x1, g1) = x2" "x1 = Some iid"
    "item_use iid a (other a) g1 = Inr g2"
  then show "((a, g2), (a, g)) \<in> measure (\<lambda>(a, g). length (inventory (actor g a)))"
    using prompt_choose_item_Some[of a g iid g1] item_use_inventory[of iid a "other a" g1 g2 a]
    by auto
qed

declare use_item_loop.simps [simp del]

text \<open>
  The dealer's estimate \<^verbatim>\<open>p_live\<close> is a quotient of two integers, kept here as the pair
  (numerator, denominator) with a positive denominator; \<open>p_ge p a b\<close> is
  \<^verbatim>\<open>p_live >= a / b\<close>, decided on the exact quotient. The source compares the rounded
  quotient with the constants 0.6 and 0.5, which gives the same answer unless the shells
  number more than \<^verbatim>\<open>10**15\<close>. \<^verbatim>\<open>random.random() < q\<close> is a draw reduced to hundredths,
  so that both outcomes occur for every threshold of the source.
\<close>

definition p_live_of :: "Game \<Rightarrow> int \<times> int" where
  "p_live_of g =
     (case counts_remaining (shotgun g) of
        (live_left, blank_left) \<Rightarrow> (int live_left, max 1 (int live_left + int blank_left)))"

definition p_ge :: "int \<times> int \<Rightarrow> int \<Rightarrow> int \<Rightarrow> bool" where
  "p_ge p a b = (a * snd p \<le> fst p * b)"

definition random_lt :: "nat \<Rightarrow> rng \<Rightarrow> bool \<times> rng" where
  "random_lt pct r = (r 0 mod 100 < pct, \<lambda>i. r (Suc i))"

text \<open>The five stanzas of \<^verbatim>\<open>ai_maybe_use_item\<close>, in the order of the source.\<close>

definition ai_cigarette :: "who \<Rightarrow> Game \<Rightarrow> error + Game" where
  "ai_cigarette a g =
     (if hp (actor g a) < max_hp (actor g a) \<and> CIGARETTE \<in> set (inventory (actor g a)) then
        (case random_lt 50 (rand g) of
           (b, r) \<Rightarrow>
             if b then item_use CIGARETTE a P (upd_actor a (pop_item CIGARETTE) (g\<lparr>rand := r\<rparr>))
             else Inr (g\<lparr>rand := r\<rparr>))
      else Inr g)"

definition ai_glass :: "who \<Rightarrow> int \<times> int \<Rightarrow> Game \<Rightarrow> error + ((int \<times> int) \<times> Game)" where
  "ai_glass a p_live g =
     (if current_known (knowledge (actor g a)) = None
         \<and> MAGNIFYING_GLASS \<in> set (inventory (actor g a)) then
        (case random_lt 35 (rand g) of
           (b, r) \<Rightarrow>
             if b then
               (case item_use MAGNIFYING_GLASS a P
                       (upd_actor a (pop_item MAGNIFYING_GLASS) (g\<lparr>rand := r\<rparr>)) of
                  Inl e \<Rightarrow> Inl e
                | Inr g1 \<Rightarrow>
                    (case current_known (knowledge (actor g1 a)) of
                       None \<Rightarrow> Inr (p_live, g1)
                     | Some k \<Rightarrow> Inr (if k = LIVE then (1, 1) else (0, 1), g1)))
             else Inr (p_live, g\<lparr>rand := r\<rparr>))
      else Inr (p_live, g))"

definition ai_saw :: "who \<Rightarrow> int \<times> int \<Rightarrow> Game \<Rightarrow> error + Game" where
  "ai_saw a p_live g =
     (if p_ge p_live 6 10 \<and> HAND_SAW \<in> set (inventory (actor g a)) then
        (case random_lt 50 (rand g) of
           (b, r) \<Rightarrow>
             if b then item_use HAND_SAW a P (upd_actor a (pop_item HAND_SAW) (g\<lparr>rand := r\<rparr>))
             else Inr (g\<lparr>rand := r\<rparr>))
      else Inr g)"

definition ai_beer :: "who \<Rightarrow> Game \<Rightarrow> error + Game" where
  "ai_beer a g =
     (if remaining (shotgun g) > 2 \<and> BEER \<in> set (inventory (actor g a)) then
        (case random_lt 15 (rand g) of
           (b, r) \<Rightarrow>
             if b then item_use BEER a P (upd_actor a (pop_item BEER) (g\<lparr>rand := r\<rparr>))
             else Inr (g\<lparr>rand := r\<rparr>))
      else Inr g)"

definition ai_handcuffs :: "who \<Rightarrow> int \<times> int \<Rightarrow> Game \<Rightarrow> error + Game" where
  "ai_handcuffs a p_live g =
     (if p_ge p_live 6 10 \<and> HANDCUFFS \<in> set (inventory (actor g a)) then
        (case random_lt 25 (rand g) of
           (b, r) \<Rightarrow>
             if b then item_use HANDCUFFS a P (upd_actor a (pop_item HANDCUFFS) (g\<lparr>rand := r\<rparr>))
             else Inr (g\<lparr>rand := r\<rparr>))
      else Inr g)"

definition ai_maybe_use_item :: "who \<Rightarrow> Game \<Rightarrow> error + Game" where
  "ai_maybe_use_item a g =
     (let p_live = p_live_of g in
      case ai_cigarette a g of
        Inl e \<Rightarrow> Inl e
      | Inr g1 \<Rightarrow>
          (case ai_glass a p_live g1 of
             Inl e \<Rightarrow> Inl e
           | Inr (p_live2, g2) \<Rightarrow>
               (case ai_saw a p_live2 g2 of
                  Inl e \<Rightarrow> Inl e
                | Inr g3 \<Rightarrow>
                    (case ai_beer a g3 of
                       Inl e \<Rightarrow> Inl e
                     | Inr g4 \<Rightarrow> ai_handcuffs a p_live2 g4))))"

definition use_item_flow :: "who \<Rightarrow> Game \<Rightarrow> error + Game" where
  "use_item_flow a g = (if ai (actor g a) then ai_maybe_use_item a g else use_item_loop a g)"

definition ai_choose_target :: "who \<Rightarrow> Game \<Rightarrow> who" where
  "ai_choose_target a g =
     (if current_known (knowledge (actor g a)) = Some LIVE then P
      else if current_known (knowledge (actor g a)) = Some BLANK then a
      else if p_ge (p_live_of g) 1 2 then P else a)"

subsection \<open>Shot resolution and the turn\<close>

definition resolve_shot :: "who \<Rightarrow> who \<Rightarrow> Game \<Rightarrow> error + (bool \<times> Game)" where
  "resolve_shot shooter target g =
     (case fire (shotgun g) of
        (Inl e, sg) \<Rightarrow> Inl e
      | (Inr shell, sg) \<Rightarrow>
          (let g1 = upd_actor (other shooter) (set_current_known None)
                      (upd_actor shooter (set_current_known None) (g\<lparr>shotgun := sg\<rparr>))
           in if shell = LIVE then
                (let dmg = dmg_mult (actor g1 shooter);
                     g2 = upd_actor target (hurt dmg) g1;
                     g3 = log (MsgLive (name (actor g2 shooter)) (name (actor g2 target)) dmg
                                 (hp (actor g2 target))) g2
                 in Inr (False, upd_actor shooter (\<lambda>a. a\<lparr>dmg_mult := 1\<rparr>) g3))
              else
                (let g2 = log (MsgBlank (name (actor g1 shooter)) (name (actor g1 target))) g1;
                     g3 = upd_actor shooter (\<lambda>a. a\<lparr>dmg_mult := 1\<rparr>) g2
                 in Inr (shooter = target, g3))))"

text \<open>Lines 417 to 428 of \<^verbatim>\<open>turn_loop\<close>: the target, and the game with the input read.\<close>

definition aim :: "who \<Rightarrow> Game \<Rightarrow> error + (who \<times> Game)" where
  "aim a g =
     (if ai (actor g a) then Inr (ai_choose_target a g, g)
      else (case aim_loop (stdin g) of
              Inl e \<Rightarrow> Inl e
            | Inr (self, rest) \<Rightarrow> Inr (if self then a else other a, g\<lparr>stdin := rest\<rparr>)))"

text \<open>Lines 403 to 410 of \<^verbatim>\<open>turn_loop\<close>: the new round.\<close>

definition reload :: "Game \<Rightarrow> error + Game" where
  "reload g =
     (let g1 = log MsgNewRound (g\<lparr>round_no := round_no g + 1\<rparr>) in
      case load (min_shells (cfg g1)) (max_shells (cfg g1)) (rand g1) of
        Inl e \<Rightarrow> Inl e
      | Inr (sg, r) \<Rightarrow>
          (case deal_items (g1\<lparr>shotgun := sg, rand := r\<rparr>) of
             Inl e \<Rightarrow> Inl e
           | Inr g2 \<Rightarrow> Inr (g2\<lparr>turn := P\<rparr>)))"

definition turn_loop :: "Game \<Rightarrow> error + Game" where
  "turn_loop g =
     (let a = turn g; opp = other a in
      if skip_next (actor g a) then
        (let g1 = upd_actor a (\<lambda>x. x\<lparr>skip_next := False\<rparr>) g
         in Inr ((log (MsgSkip (name (actor g1 a))) g1)\<lparr>turn := opp\<rparr>))
      else if remaining (shotgun g) = 0 then reload g
      else
        (case use_item_flow a g of
           Inl e \<Rightarrow> Inl e
         | Inr g1 \<Rightarrow>
             (case aim a g1 of
                Inl e \<Rightarrow> Inl e
              | Inr (target, g2) \<Rightarrow>
                  (case resolve_shot a target g2 of
                     Inl e \<Rightarrow> Inl e
                   | Inr (keep_turn, g3) \<Rightarrow>
                       Inr (if \<not> keep_turn then g3\<lparr>turn := opp\<rparr> else g3)))))"

definition Actor_new :: "string \<Rightarrow> int \<Rightarrow> bool \<Rightarrow> Actor" where
  "Actor_new nm mhp is_ai =
     \<lparr>name = nm, max_hp = mhp, hp = mhp, inventory = [], skip_next = False, dmg_mult = 1,
      ai = is_ai, knowledge = Knowledge_new\<rparr>"

text \<open>
  \<^verbatim>\<open>Game.__init__\<close>. The seed of the configuration fixes the stream \<open>r\<close> of the random
  source; \<open>inp\<close> is what standard input holds.
\<close>

definition Game_init :: "Config \<Rightarrow> rng \<Rightarrow> Ans list \<Rightarrow> error + Game" where
  "Game_init c r inp =
     (case load (min_shells c) (max_shells c) r of
        Inl e \<Rightarrow> Inl e
      | Inr (sg, r1) \<Rightarrow>
          deal_items
            \<lparr>cfg = c,
             player = Actor_new ''You'' (player_max_hp c) False,
             dealer = Actor_new ''Dealer'' (dealer_max_hp c) True,
             turn = P, shotgun = sg, round_no = 1, transcript = [], rand = r1, stdin = inp\<rparr>)"

section \<open>Reachable states\<close>

text \<open>
  The states at the head of the loop of \<^verbatim>\<open>play\<close>: the state \<^verbatim>\<open>Game.__init__\<close> builds, for
  any configuration, random source and input, and the state after each step of
  \<open>turn_loop\<close> taken while both actors are alive.
\<close>

inductive reachable :: "Game \<Rightarrow> bool" where
  reachable_init: "Game_init c r inp = Inr g \<Longrightarrow> reachable g"
| reachable_turn:
    "reachable g \<Longrightarrow> is_alive (player g) \<Longrightarrow> is_alive (dealer g) \<Longrightarrow>
     turn_loop g = Inr g' \<Longrightarrow> reachable g'"

text \<open>
  \<open>in_turn g0 g\<close>: the turn that starts in \<open>g0\<close> passes through \<open>g\<close> before its shot is
  resolved. A human actor's item phase is the loop of \<open>use_item_loop\<close>, one rule per way
  round it; for the dealer each stanza of \<open>ai_maybe_use_item\<close> is a rule, usable in any order
  and with any estimate, which covers the one order the code runs them in; the last rule is
  the choice of the target.
\<close>

inductive in_turn :: "Game \<Rightarrow> Game \<Rightarrow> bool" where
  enter:
    "reachable g0 \<Longrightarrow> is_alive (player g0) \<Longrightarrow> is_alive (dealer g0) \<Longrightarrow>
     \<not> skip_next (actor g0 (turn g0)) \<Longrightarrow> remaining (shotgun g0) \<noteq> 0 \<Longrightarrow> in_turn g0 g0"
| human_item:
    "in_turn g0 g \<Longrightarrow> \<not> ai (actor g0 (turn g0)) \<Longrightarrow>
     prompt_choose_item (turn g0) g = Inr (Some iid, g1) \<Longrightarrow>
     item_use iid (turn g0) (other (turn g0)) g1 = Inr g' \<Longrightarrow> in_turn g0 g'"
| human_done:
    "in_turn g0 g \<Longrightarrow> \<not> ai (actor g0 (turn g0)) \<Longrightarrow>
     prompt_choose_item (turn g0) g = Inr (None, g') \<Longrightarrow> in_turn g0 g'"
| dealer_cigarette:
    "in_turn g0 g \<Longrightarrow> ai (actor g0 (turn g0)) \<Longrightarrow>
     ai_cigarette (turn g0) g = Inr g' \<Longrightarrow> in_turn g0 g'"
| dealer_glass:
    "in_turn g0 g \<Longrightarrow> ai (actor g0 (turn g0)) \<Longrightarrow>
     ai_glass (turn g0) p g = Inr (q, g') \<Longrightarrow> in_turn g0 g'"
| dealer_saw:
    "in_turn g0 g \<Longrightarrow> ai (actor g0 (turn g0)) \<Longrightarrow>
     ai_saw (turn g0) p g = Inr g' \<Longrightarrow> in_turn g0 g'"
| dealer_beer:
    "in_turn g0 g \<Longrightarrow> ai (actor g0 (turn g0)) \<Longrightarrow>
     ai_beer (turn g0) g = Inr g' \<Longrightarrow> in_turn g0 g'"
| dealer_handcuffs:
    "in_turn g0 g \<Longrightarrow> ai (actor g0 (turn g0)) \<Longrightarrow>
     ai_handcuffs (turn g0) p g = Inr g' \<Longrightarrow> in_turn g0 g'"
| aimed:
    "in_turn g0 g \<Longrightarrow> aim (turn g0) g = Inr (t, g') \<Longrightarrow> in_turn g0 g'"

text \<open>
  What actor \<open>a\<close>, whose turn it is, knows about the chamber is right, and the opponent
  holds no certainty about it.
\<close>

definition knows_current :: "who \<Rightarrow> Game \<Rightarrow> bool" where
  "knows_current a g =
     ((\<forall>k. current_known (knowledge (actor g a)) = Some k \<longrightarrow>
           peek_current (shotgun g) = Inr k) \<and>
      current_known (knowledge (actor g (other a))) = None)"

section \<open>Example states\<close>

text \<open>
  Concrete states for evaluating the model: a game of the default configuration with the
  given shells, cursor, inventories and input, and one in which the player has looked at
  the live shell in the chamber.
\<close>

definition example_game :: "Shell list \<Rightarrow> nat \<Rightarrow> ItemId list \<Rightarrow> ItemId list \<Rightarrow> Ans list \<Rightarrow> Game" where
  "example_game sh i pinv dinv inp =
     \<lparr>cfg = Config_default,
      player = (Actor_new ''You'' 4 False)\<lparr>inventory := pinv\<rparr>,
      dealer = (Actor_new ''Dealer'' 4 True)\<lparr>inventory := dinv\<rparr>,
      turn = P, shotgun = \<lparr>shells = sh, index = i\<rparr>, round_no = 1, transcript = [],
      rand = (\<lambda>i. i), stdin = inp\<rparr>"

definition example_seen :: Game where
  "example_seen = upd_actor P (set_current_known (Some LIVE)) (example_game [LIVE, BLANK, LIVE] 0 [INVERTER] [] [])"

text \<open>
  A game whose second actor is not AI-controlled and holds the same item twice, with the
  line \<^verbatim>\<open>1\<close> waiting on standard input.
\<close>

definition example_second_human :: Game where
  "example_second_human =
     upd_actor D (\<lambda>a. a\<lparr>ai := False\<rparr>)
       (example_game [LIVE, BLANK] 0 [] [HAND_SAW, HAND_SAW, BEER] [ADigits 1])"

section \<open>Properties of the shell sequence\<close>

lemma randint_range:
  assumes "a \<le> b"
  shows "\<exists>k r'. randint a b r = Inr (k, r') \<and> a \<le> k \<and> k \<le> b"
proof -
  have "0 < nat (b - a + 1)" using assms by simp
  then have "int (r 0 mod nat (b - a + 1)) < b - a + 1"
    using mod_less_divisor[of "nat (b - a + 1)" "r 0"] by linarith
  with assms show ?thesis by (simp add: randint_def randbelow_def)
qed

lemma mset_swap_list: "i < length xs \<Longrightarrow> j < length xs \<Longrightarrow> mset (swap i j xs) = mset xs"
  unfolding swap_def using mset_swap[of j xs i] by simp

lemma length_swap [simp]: "length (swap i j xs) = length xs"
  by (simp add: swap_def)

lemma mset_shuffle_from:
  "k < length xs \<Longrightarrow> mset (fst (shuffle_from k xs r)) = mset xs"
proof (induction k arbitrary: xs r)
  case 0
  then show ?case by simp
next
  case (Suc k)
  have j: "r 0 mod (Suc k + 1) < length xs"
    using Suc.prems mod_less_divisor[of "Suc k + 1" "r 0"] by linarith
  have "mset (swap (Suc k) (r 0 mod (Suc k + 1)) xs) = mset xs"
    using Suc.prems j by (rule mset_swap_list)
  moreover have "k < length (swap (Suc k) (r 0 mod (Suc k + 1)) xs)"
    using Suc.prems by simp
  ultimately show ?case
    using Suc.IH[of "swap (Suc k) (r 0 mod (Suc k + 1)) xs" "\<lambda>i. r (Suc i)"]
    by (simp add: randbelow_def)
qed

lemma mset_shuffle: "mset (fst (shuffle xs r)) = mset xs"
proof (cases xs)
  case Nil
  then show ?thesis by (simp add: shuffle_def)
next
  case (Cons x ys)
  then have "length xs - 1 < length xs" by simp
  then show ?thesis unfolding shuffle_def by (rule mset_shuffle_from)
qed

lemma count_list_shuffle: "count_list (fst (shuffle xs r)) x = count_list xs x"
  using mset_shuffle[of xs r] by (metis count_mset)

lemma length_shuffle: "length (fst (shuffle xs r)) = length xs"
  using mset_shuffle[of xs r] by (metis size_mset)

lemma count_list_replicate: "count_list (replicate n x) y = (if x = y then n else 0)"
  by (induction n) auto

text \<open>
  Claim C4. For \<open>2 \<le> min_shells \<le> max_shells\<close>, \<open>load\<close> returns a shotgun: its length
  \<open>n\<close> is the first draw and lies between the bounds, the live count is the second draw
  and lies between 1 and \<open>n - 1\<close>, so a live and a blank shell are both present, the
  cursor is 0 and \<open>counts_remaining\<close> is the live count and \<open>n\<close> minus the live count.
\<close>

theorem load_invariant:
  assumes "2 \<le> mn" and "mn \<le> mx"
  shows "\<exists>n live_count r1 r2 sg r3.
           randint mn mx r = Inr (n, r1) \<and> randint 1 (n - 1) r1 = Inr (live_count, r2) \<and>
           load mn mx r = Inr (sg, r3) \<and>
           int (length (shells sg)) = n \<and> mn \<le> n \<and> n \<le> mx \<and>
           1 \<le> live_count \<and> live_count \<le> n - 1 \<and>
           count_list (shells sg) LIVE = nat live_count \<and>
           count_list (shells sg) BLANK = nat (n - live_count) \<and>
           LIVE \<in> set (shells sg) \<and> BLANK \<in> set (shells sg) \<and>
           index sg = 0 \<and>
           counts_remaining sg = (nat live_count, nat (n - live_count))"
proof -
  obtain n r1 where n: "randint mn mx r = Inr (n, r1)" "mn \<le> n" "n \<le> mx"
    using randint_range[OF assms(2), of r] by blast
  have "1 \<le> n - 1" using assms(1) n(2) by simp
  then obtain lc r2 where lc: "randint 1 (n - 1) r1 = Inr (lc, r2)" "1 \<le> lc" "lc \<le> n - 1"
    using randint_range[of 1 "n - 1" r1] by blast
  define xs where "xs = replicate (nat lc) LIVE @ replicate (nat (n - lc)) BLANK"
  obtain sh r3 where sh: "shuffle xs r2 = (sh, r3)" by (cases "shuffle xs r2")
  define sg where "sg = \<lparr>shells = sh, index = 0\<rparr>"
  have ld: "load mn mx r = Inr (sg, r3)"
    using n(1) lc(1) sh by (simp add: load_def Let_def xs_def sg_def)
  have sh_eq: "sh = fst (shuffle xs r2)" using sh by simp
  have len: "int (length sh) = n"
    using lc by (simp add: sh_eq length_shuffle xs_def)
  have cl: "count_list sh LIVE = nat lc"
    by (simp add: sh_eq count_list_shuffle xs_def count_list_replicate)
  have cb: "count_list sh BLANK = nat (n - lc)"
    by (simp add: sh_eq count_list_shuffle xs_def count_list_replicate)
  have "0 < count_list sh LIVE" using cl lc by simp
  then have ml: "LIVE \<in> set sh" using count_list_0_iff[of sh LIVE] by auto
  have "0 < count_list sh BLANK" using cb lc by simp
  then have mb: "BLANK \<in> set sh" using count_list_0_iff[of sh BLANK] by auto
  have cr: "counts_remaining sg = (nat lc, nat (n - lc))"
    by (simp add: counts_remaining_def sg_def cl cb)
  show ?thesis
    using n lc ld len cl cb ml mb cr by (auto simp add: sg_def)
qed

theorem load_invariant_witness:
  "(2::int) \<le> 2 \<and> (2::int) \<le> 8 \<and>
   (\<exists>n live_count r1 r2 sg r3.
       randint 2 8 (\<lambda>i. i + 1) = Inr (n, r1) \<and> randint 1 (n - 1) r1 = Inr (live_count, r2) \<and>
       load 2 8 (\<lambda>i. i + 1) = Inr (sg, r3) \<and>
       int (length (shells sg)) = n \<and> 2 \<le> n \<and> n \<le> 8 \<and>
       1 \<le> live_count \<and> live_count \<le> n - 1 \<and>
       count_list (shells sg) LIVE = nat live_count \<and>
       count_list (shells sg) BLANK = nat (n - live_count) \<and>
       LIVE \<in> set (shells sg) \<and> BLANK \<in> set (shells sg) \<and>
       index sg = 0 \<and>
       counts_remaining sg = (nat live_count, nat (n - live_count))) \<and>
   (case load 2 8 (\<lambda>i. i + 1) of Inl e \<Rightarrow> [] | Inr (sg, r) \<Rightarrow> shells sg) = [BLANK, BLANK, LIVE]"
proof -
  have ev: "(case load 2 8 (\<lambda>i. i + 1) of Inl e \<Rightarrow> [] | Inr (sg, r) \<Rightarrow> shells sg)
              = [BLANK, BLANK, LIVE]"
    by code_simp
  show ?thesis
    using load_invariant[of 2 8 "\<lambda>i. i + 1"] ev by simp
qed

text \<open>
  Claim C9. \<open>fire\<close> and \<open>eject_current\<close> are the same operation. It raises exactly when
  the cursor has reached the length, and then leaves the shotgun as it was; otherwise it
  returns the shell at the cursor and moves the cursor by one, which keeps it within the
  length.
\<close>

theorem fire_cursor:
  "eject_current sg = fire sg \<and>
   ((\<exists>e. fst (fire sg) = Inl e) \<longleftrightarrow> index sg \<ge> length (shells sg)) \<and>
   (index sg \<ge> length (shells sg) \<longrightarrow> fire sg = (Inl RuntimeError, sg)) \<and>
   (index sg < length (shells sg) \<longrightarrow>
      fire sg = (Inr (shells sg ! index sg), sg\<lparr>index := index sg + 1\<rparr>) \<and>
      shells (snd (fire sg)) = shells sg \<and>
      index (snd (fire sg)) = index sg + 1 \<and>
      index (snd (fire sg)) \<le> length (shells (snd (fire sg))))"
  by (simp add: fire_def eject_current_def)


theorem fire_cursor_witness:
  "fire \<lparr>shells = [LIVE, BLANK], index = 1\<rparr> = (Inr BLANK, \<lparr>shells = [LIVE, BLANK], index = 2\<rparr>) \<and>
   eject_current \<lparr>shells = [LIVE, BLANK], index = 1\<rparr>
     = (Inr BLANK, \<lparr>shells = [LIVE, BLANK], index = 2\<rparr>) \<and>
   fire \<lparr>shells = [LIVE, BLANK], index = 2\<rparr> = (Inl RuntimeError, \<lparr>shells = [LIVE, BLANK], index = 2\<rparr>)"
  using fire_cursor[of "\<lparr>shells = [LIVE, BLANK], index = 1\<rparr>"]
    fire_cursor[of "\<lparr>shells = [LIVE, BLANK], index = 2\<rparr>"]
  by simp

section \<open>Properties of the item effects\<close>

text \<open>
  Claim C6. With at least one shell remaining, the Inverter replaces the shell at the
  cursor by its negation and leaves the cursor where it is. If the user's
  \<open>current_known\<close> was set, it is the negation of its former value afterwards, and if it
  agreed with the shell at the cursor before, it agrees with it after.
\<close>

theorem inverter_consistency:
  assumes "1 \<le> remaining (shotgun g)"
  shows "\<exists>g'. Inverter_use user target g = Inr g' \<and>
           index (shotgun g') = index (shotgun g) \<and>
           shells (shotgun g') =
             (shells (shotgun g))[index (shotgun g) := flip (shells (shotgun g) ! index (shotgun g))] \<and>
           peek_current (shotgun g') = Inr (flip (shells (shotgun g) ! index (shotgun g))) \<and>
           flip LIVE = BLANK \<and> flip BLANK = LIVE \<and>
           (\<forall>k. current_known (knowledge (actor g user)) = Some k \<longrightarrow>
                current_known (knowledge (actor g' user)) = Some (flip k) \<and>
                (peek_current (shotgun g) = Inr k \<longrightarrow> peek_current (shotgun g') = Inr (flip k)))"
proof -
  from assms have lt: "index (shotgun g) < length (shells (shotgun g))"
    by (simp add: remaining_def)
  show ?thesis
  proof (cases "current_known (knowledge (actor g user))")
    case None
    with lt show ?thesis
      by (simp add: Inverter_use_def invert_current_def peek_current_def Let_def)
  next
    case (Some k)
    with lt show ?thesis
      by (simp add: Inverter_use_def invert_current_def peek_current_def Let_def
          set_current_known_def)
  qed
qed

theorem inverter_consistency_witness:
  "1 \<le> remaining (shotgun example_seen) \<and>
   current_known (knowledge (actor example_seen P)) = Some LIVE \<and>
   peek_current (shotgun example_seen) = Inr LIVE \<and>
   (\<exists>g'. Inverter_use P D example_seen = Inr g' \<and>
      index (shotgun g') = 0 \<and> shells (shotgun g') = [BLANK, BLANK, LIVE] \<and>
      current_known (knowledge (actor g' P)) = Some BLANK \<and>
      peek_current (shotgun g') = Inr BLANK)"
  using inverter_consistency[of example_seen P D]
  by (auto simp add: example_seen_def example_game_def remaining_def peek_current_def
      set_current_known_def Actor_new_def)

text \<open>
  Claim C7. With at most one shell remaining the Burner Phone only writes the log: the
  shotgun and both actors stay as they are. Otherwise it writes one entry into the user's
  \<open>known_positions\<close>, at a position \<open>k\<close> strictly between the cursor and the length, with the
  shell at \<open>k\<close> as its value; the user's other fields, the other actor, the shotgun, the turn,
  the round, the configuration and the input stay as they are.
\<close>

theorem burner_phone_effect:
  "(remaining (shotgun g) \<le> 1 \<longrightarrow>
      BurnerPhone_use user target g = Inr (log (MsgPhoneNone (name (actor g user))) g) \<and>
      shotgun (log (MsgPhoneNone (name (actor g user))) g) = shotgun g \<and>
      (\<forall>w. actor (log (MsgPhoneNone (name (actor g user))) g) w = actor g w)) \<and>
   (1 < remaining (shotgun g) \<longrightarrow>
      (\<exists>g' k. BurnerPhone_use user target g = Inr g' \<and>
         index (shotgun g) < k \<and> k < length (shells (shotgun g)) \<and>
         actor g' user = (actor g user)
           \<lparr>knowledge := (knowledge (actor g user))
              \<lparr>known_positions :=
                 (known_positions (knowledge (actor g user)))(k \<mapsto> shells (shotgun g) ! k)\<rparr>\<rparr> \<and>
         (\<forall>w. w \<noteq> user \<longrightarrow> actor g' w = actor g w) \<and>
         shotgun g' = shotgun g \<and> turn g' = turn g \<and> round_no g' = round_no g \<and>
         cfg g' = cfg g \<and> stdin g' = stdin g))"
proof (intro conjI impI)
  assume "remaining (shotgun g) \<le> 1"
  then show "BurnerPhone_use user target g = Inr (log (MsgPhoneNone (name (actor g user))) g)"
    by (simp add: BurnerPhone_use_def)
next
  show "shotgun (log (MsgPhoneNone (name (actor g user))) g) = shotgun g" by simp
next
  show "\<forall>w. actor (log (MsgPhoneNone (name (actor g user))) g) w = actor g w" by simp
next
  assume rem: "1 < remaining (shotgun g)"
  let ?rem = "remaining (shotgun g)"
  obtain rel r where rel: "randint 1 (?rem - 1) (rand g) = Inr (rel, r)" "1 \<le> rel" "rel \<le> ?rem - 1"
    using randint_range[of 1 "?rem - 1" "rand g"] rem by auto
  define k where "k = nat (int (index (shotgun g)) + rel)"
  have k: "index (shotgun g) < k" "k < length (shells (shotgun g))"
    using rel by (simp_all add: k_def remaining_def)
  let ?f = "\<lambda>a. a\<lparr>knowledge := (knowledge a)
              \<lparr>known_positions := (known_positions (knowledge a))(k \<mapsto> shells (shotgun g) ! k)\<rparr>\<rparr>"
  let ?g' = "log (MsgPhone (rel + 1) (shells (shotgun g) ! k)) (upd_actor user ?f (g\<lparr>rand := r\<rparr>))"
  have use: "BurnerPhone_use user target g = Inr ?g'"
    using rem rel(1) k(2) by (simp add: BurnerPhone_use_def Let_def k_def)
  have "actor ?g' user = ?f (actor g user)" by simp
  moreover have "\<forall>w. w \<noteq> user \<longrightarrow> actor ?g' w = actor g w" by simp
  ultimately show "\<exists>g' k. BurnerPhone_use user target g = Inr g' \<and>
         index (shotgun g) < k \<and> k < length (shells (shotgun g)) \<and>
         actor g' user = (actor g user)
           \<lparr>knowledge := (knowledge (actor g user))
              \<lparr>known_positions :=
                 (known_positions (knowledge (actor g user)))(k \<mapsto> shells (shotgun g) ! k)\<rparr>\<rparr> \<and>
         (\<forall>w. w \<noteq> user \<longrightarrow> actor g' w = actor g w) \<and>
         shotgun g' = shotgun g \<and> turn g' = turn g \<and> round_no g' = round_no g \<and>
         cfg g' = cfg g \<and> stdin g' = stdin g"
    using use k by (intro exI[of _ ?g'] exI[of _ k]) simp
qed

theorem burner_phone_effect_witness:
  "remaining (shotgun (example_game [LIVE, BLANK] 1 [] [] [])) \<le> 1 \<and>
   BurnerPhone_use P D (example_game [LIVE, BLANK] 1 [] [] [])
     = Inr (log (MsgPhoneNone ''You'') (example_game [LIVE, BLANK] 1 [] [] [])) \<and>
   1 < remaining (shotgun (example_game [LIVE, BLANK, LIVE] 0 [] [] [])) \<and>
   (\<exists>g'. BurnerPhone_use P D (example_game [LIVE, BLANK, LIVE] 0 [] [] []) = Inr g' \<and>
      known_positions (knowledge (actor g' P)) = [1 \<mapsto> BLANK] \<and>
      actor g' D = actor (example_game [LIVE, BLANK, LIVE] 0 [] [] []) D \<and>
      shotgun g' = \<lparr>shells = [LIVE, BLANK, LIVE], index = 0\<rparr>)"
proof -
  let ?g1 = "example_game [LIVE, BLANK] 1 [] [] []"
  let ?g2 = "example_game [LIVE, BLANK, LIVE] 0 [] [] []"
  have a: "remaining (shotgun ?g1) \<le> 1" by (simp add: example_game_def remaining_def)
  have b: "1 < remaining (shotgun ?g2)" by (simp add: example_game_def remaining_def)
  have n: "name (actor ?g1 P) = ''You''" by (simp add: example_game_def actor_def Actor_new_def)
  have c: "BurnerPhone_use P D ?g2 =
      Inr (log (MsgPhone 2 BLANK)
            (upd_actor P (\<lambda>a. a\<lparr>knowledge := (knowledge a)
                 \<lparr>known_positions := (known_positions (knowledge a))(1 \<mapsto> BLANK)\<rparr>\<rparr>)
               (?g2\<lparr>rand := \<lambda>i. Suc i\<rparr>)))"
    by (simp add: BurnerPhone_use_def example_game_def remaining_def randint_def randbelow_def
        Let_def)
  have d: "known_positions (knowledge (actor ?g2 P)) = Map.empty"
    by (simp add: example_game_def actor_def Actor_new_def Knowledge_new_def)
  from burner_phone_effect[of ?g1 P D] a n
  have "BurnerPhone_use P D ?g1 = Inr (log (MsgPhoneNone ''You'') ?g1)" by simp
  moreover have "\<exists>g'. BurnerPhone_use P D ?g2 = Inr g' \<and>
      known_positions (knowledge (actor g' P)) = [1 \<mapsto> BLANK] \<and>
      actor g' D = actor ?g2 D \<and> shotgun g' = \<lparr>shells = [LIVE, BLANK, LIVE], index = 0\<rparr>"
  proof -
    from burner_phone_effect[of ?g2 P D] b obtain g' k where
      g': "BurnerPhone_use P D ?g2 = Inr g'" "shotgun g' = shotgun ?g2"
        "\<forall>w. w \<noteq> P \<longrightarrow> actor g' w = actor ?g2 w"
      by blast
    from g'(1) c have "known_positions (knowledge (actor g' P)) = [1 \<mapsto> BLANK]"
      using d by auto
    moreover from g'(3) have "actor g' D = actor ?g2 D" by simp
    moreover from g'(2) have "shotgun g' = \<lparr>shells = [LIVE, BLANK, LIVE], index = 0\<rparr>"
      by (simp add: example_game_def)
    ultimately show ?thesis using g'(1) by blast
  qed
  ultimately show ?thesis using a b by blast
qed

section \<open>Properties of shot resolution and the turn\<close>

text \<open>
  Claim C8. After a shot of shooter \<open>A\<close> at target \<open>T\<close> is resolved, the shooter's
  \<open>dmg_mult\<close> is 1 whatever the shell was; a live shell takes the shooter's former
  \<open>dmg_mult\<close> from the target's HP, with no floor, and a blank leaves the HP as it was.
\<close>

theorem damage_multiplier_reset:
  assumes "1 \<le> remaining (shotgun g)"
  shows "\<exists>keep g'. resolve_shot A T g = Inr (keep, g') \<and>
           dmg_mult (actor g' A) = 1 \<and>
           (shells (shotgun g) ! index (shotgun g) = LIVE \<longrightarrow>
              hp (actor g' T) = hp (actor g T) - dmg_mult (actor g A)) \<and>
           (shells (shotgun g) ! index (shotgun g) = BLANK \<longrightarrow>
              hp (actor g' T) = hp (actor g T))"
proof -
  from assms have lt: "index (shotgun g) < length (shells (shotgun g))"
    by (simp add: remaining_def)
  show ?thesis
  proof (cases "A = T")
    case True
    with lt show ?thesis
      by (cases "shells (shotgun g) ! index (shotgun g)")
        (auto simp add: resolve_shot_def fire_def Let_def hurt_def set_current_known_def)
  next
    case False
    then have "T \<noteq> A" by simp
    with lt False show ?thesis
      by (cases "shells (shotgun g) ! index (shotgun g)"; cases "T = other A")
        (auto simp add: resolve_shot_def fire_def Let_def hurt_def set_current_known_def)
  qed
qed

theorem damage_multiplier_reset_witness:
  "1 \<le> remaining (shotgun (upd_actor P (\<lambda>a. a\<lparr>dmg_mult := 2\<rparr>) (example_game [LIVE, BLANK] 0 [] [] []))) \<and>
   (\<exists>g'. resolve_shot P D (upd_actor P (\<lambda>a. a\<lparr>dmg_mult := 2\<rparr>) (example_game [LIVE, BLANK] 0 [] [] []))
            = Inr (False, g') \<and>
      dmg_mult (actor g' P) = 1 \<and> hp (actor g' D) = 2)"
  using damage_multiplier_reset[of "upd_actor P (\<lambda>a. a\<lparr>dmg_mult := 2\<rparr>) (example_game [LIVE, BLANK] 0 [] [] [])" P D]
  by (auto simp add: example_game_def remaining_def resolve_shot_def fire_def Let_def
      Actor_new_def actor_def upd_actor_def hurt_def)

subsection \<open>What the item phase leaves alone\<close>

text \<open>
  A rule for reasoning about a successful \<open>item_use\<close>: the seven plain items, and the three
  ways \<^verbatim>\<open>Adrenaline.use\<close> returns.
\<close>

lemma item_use_result_induct [consumes 1, case_names basic nothing cancel steal]:
  assumes run: "item_use iid user target g = Inr g'"
    and basic: "\<And>iid g g'. iid \<noteq> ADRENALINE \<Longrightarrow> item_use iid user target g = Inr g' \<Longrightarrow> Q g g'"
    and nothing: "\<And>g. inventory (actor g target) = [] \<Longrightarrow>
        Q g (log (MsgNothingToSteal (name (actor g user))) g)"
    and cancel: "\<And>g g1. inventory (actor g target) \<noteq> [] \<Longrightarrow>
        steal_choice user target g = Inr (None, g1) \<Longrightarrow>
        Q g (log (MsgCancelSteal (name (actor g1 user))) g1)"
    and steal: "\<And>g sid g1 g'. inventory (actor g target) \<noteq> [] \<Longrightarrow>
        steal_choice user target g = Inr (Some sid, g1) \<Longrightarrow>
        item_use sid user target
          (log (MsgSteal (name (actor (upd_actor target (pop_item sid) g1) user)) sid
                  (name (actor (upd_actor target (pop_item sid) g1) target)))
             (upd_actor target (pop_item sid) g1)) = Inr g' \<Longrightarrow>
        Q (log (MsgSteal (name (actor (upd_actor target (pop_item sid) g1) user)) sid
                  (name (actor (upd_actor target (pop_item sid) g1) target)))
             (upd_actor target (pop_item sid) g1)) g' \<Longrightarrow>
        Q g g'"
  shows "Q g g'"
  using assms
proof (induction iid user target g arbitrary: g' rule: item_use.induct)
  case (8 user target g)
  show ?case
  proof (cases "inventory (actor g target) = []")
    case True
    with "8.prems"(1) have "g' = log (MsgNothingToSteal (name (actor g user))) g" by simp
    with True "8.prems"(3) show ?thesis by simp
  next
    case False
    show ?thesis
    proof (cases "steal_choice user target g")
      case (Inl e)
      with False "8.prems"(1) show ?thesis by simp
    next
      case (Inr p)
      obtain x g1 where p: "p = (x, g1)" by (cases p)
      show ?thesis
      proof (cases x)
        case None
        with False Inr p "8.prems"(1) have "g' = log (MsgCancelSteal (name (actor g1 user))) g1"
          by simp
        with "8.prems"(4)[OF False Inr[unfolded p None]] show ?thesis by simp
      next
        case (Some sid)
        let ?g2 = "upd_actor target (pop_item sid) g1"
        let ?g3 = "log (MsgSteal (name (actor ?g2 user)) sid (name (actor ?g2 target))) ?g2"
        from False Inr p Some "8.prems"(1) have u: "item_use sid user target ?g3 = Inr g'"
          by (simp add: Let_def)
        have "Q ?g3 g'"
          by (rule "8.IH"[OF False Inr[unfolded p Some] refl refl refl refl u "8.prems"(2-5)])
        with "8.prems"(5)[OF False Inr[unfolded p Some] u] show ?thesis by simp
      qed
    qed
  qed
next
  case (1 user target g)
  from "1.prems"(2)[OF _ "1.prems"(1)] show ?case by simp
next
  case (2 user target g)
  from "2.prems"(2)[OF _ "2.prems"(1)] show ?case by simp
next
  case (3 user target g)
  from "3.prems"(2)[OF _ "3.prems"(1)] show ?case by simp
next
  case (4 user target g)
  from "4.prems"(2)[OF _ "4.prems"(1)] show ?case by simp
next
  case (5 user target g)
  from "5.prems"(2)[OF _ "5.prems"(1)] show ?case by simp
next
  case (6 user target g)
  from "6.prems"(2)[OF _ "6.prems"(1)] show ?case by simp
next
  case (7 user target g)
  from "7.prems"(2)[OF _ "7.prems"(1)] show ?case by simp
qed


lemma basic_use_frame:
  assumes "iid \<noteq> ADRENALINE" and "item_use iid user target g = Inr g'"
  shows "turn g' = turn g \<and> cfg g' = cfg g \<and> round_no g' = round_no g"
  using assms
  by (cases iid)
    (auto simp add: MagnifyingGlass_use_def Beer_use_def Handcuffs_use_def HandSaw_use_def
      Inverter_use_def BurnerPhone_use_def Cigarette_use_def Let_def
      split: sum.splits prod.splits if_splits option.splits)

lemma prompt_choose_item_frame:
  assumes "prompt_choose_item a g = Inr (x, g1)"
  shows "turn g1 = turn g \<and> cfg g1 = cfg g \<and> round_no g1 = round_no g \<and> shotgun g1 = shotgun g"
  using assms
  by (auto simp add: prompt_choose_item_def split: if_splits sum.splits option.splits)

lemma steal_choice_frame:
  assumes "steal_choice user target g = Inr (x, g1)"
  shows "turn g1 = turn g \<and> cfg g1 = cfg g \<and> round_no g1 = round_no g \<and> shotgun g1 = shotgun g"
  using assms
  by (auto simp add: steal_choice_def dest: prompt_choose_item_frame split: if_splits sum.splits)

lemma item_use_frame:
  assumes "item_use iid user target g = Inr g'"
  shows "turn g' = turn g \<and> cfg g' = cfg g \<and> round_no g' = round_no g"
  using assms
proof (induction rule: item_use_result_induct)
  case (basic iid g g')
  then show ?case by (rule basic_use_frame)
next
  case (nothing g)
  then show ?case by simp
next
  case (cancel g g1)
  from steal_choice_frame[OF cancel(2)] show ?case by simp
next
  case (steal g sid g1 g')
  from steal_choice_frame[OF steal(2)] steal(4) show ?case by simp
qed

lemma use_item_loop_frame:
  "use_item_loop a g = Inr g' \<Longrightarrow> turn g' = turn g \<and> cfg g' = cfg g \<and> round_no g' = round_no g"
proof (induction a g arbitrary: g' rule: use_item_loop.induct)
  case (1 a g)
  show ?case
  proof (cases "prompt_choose_item a g")
    case (Inl e)
    with "1.prems" show ?thesis by (simp add: use_item_loop.simps[of a g])
  next
    case (Inr p)
    obtain x g1 where p: "p = (x, g1)" by (cases p)
    note f1 = prompt_choose_item_frame[OF Inr[unfolded p]]
    show ?thesis
    proof (cases x)
      case None
      with Inr p "1.prems" f1 show ?thesis by (simp add: use_item_loop.simps[of a g])
    next
      case (Some iid)
      show ?thesis
      proof (cases "item_use iid a (other a) g1")
        case (Inl e)
        with Inr p Some "1.prems" show ?thesis by (simp add: use_item_loop.simps[of a g])
      next
        case (Inr g2)
        note use = this
        from \<open>prompt_choose_item a g = Inr p\<close> p Some use "1.prems"
        have "use_item_loop a g2 = Inr g'" by (simp add: use_item_loop.simps[of a g])
        from "1.IH"[OF \<open>prompt_choose_item a g = Inr p\<close>[unfolded p Some] refl refl use this]
          item_use_frame[OF use] f1
        show ?thesis by simp
      qed
    qed
  qed
qed

lemma ai_maybe_use_item_frame:
  assumes "ai_maybe_use_item a g = Inr g'"
  shows "turn g' = turn g \<and> cfg g' = cfg g \<and> round_no g' = round_no g"
proof -
  have c: "\<And>g g'. ai_cigarette a g = Inr g' \<Longrightarrow>
      turn g' = turn g \<and> cfg g' = cfg g \<and> round_no g' = round_no g"
    by (auto simp add: ai_cigarette_def simp del: item_use.simps split: if_splits prod.splits dest!: item_use_frame)
  have gl: "\<And>g g' p q. ai_glass a p g = Inr (q, g') \<Longrightarrow>
      turn g' = turn g \<and> cfg g' = cfg g \<and> round_no g' = round_no g"
    by (auto simp add: ai_glass_def simp del: item_use.simps
        split: if_splits prod.splits sum.splits option.splits dest!: item_use_frame)
  have s: "\<And>g g' p. ai_saw a p g = Inr g' \<Longrightarrow>
      turn g' = turn g \<and> cfg g' = cfg g \<and> round_no g' = round_no g"
    by (auto simp add: ai_saw_def simp del: item_use.simps split: if_splits prod.splits dest!: item_use_frame)
  have b: "\<And>g g'. ai_beer a g = Inr g' \<Longrightarrow>
      turn g' = turn g \<and> cfg g' = cfg g \<and> round_no g' = round_no g"
    by (auto simp add: ai_beer_def simp del: item_use.simps split: if_splits prod.splits dest!: item_use_frame)
  have h: "\<And>g g' p. ai_handcuffs a p g = Inr g' \<Longrightarrow>
      turn g' = turn g \<and> cfg g' = cfg g \<and> round_no g' = round_no g"
    by (auto simp add: ai_handcuffs_def simp del: item_use.simps split: if_splits prod.splits dest!: item_use_frame)
  from assms obtain g1 p2 g2 g3 g4 where
    "ai_cigarette a g = Inr g1" "ai_glass a (p_live_of g) g1 = Inr (p2, g2)"
    "ai_saw a p2 g2 = Inr g3" "ai_beer a g3 = Inr g4" "ai_handcuffs a p2 g4 = Inr g'"
    by (auto simp add: ai_maybe_use_item_def Let_def split: sum.splits prod.splits)
  with c gl s b h show ?thesis by metis
qed

lemma use_item_flow_frame:
  assumes "use_item_flow a g = Inr g'"
  shows "turn g' = turn g \<and> cfg g' = cfg g \<and> round_no g' = round_no g"
  using assms ai_maybe_use_item_frame use_item_loop_frame
  by (auto simp add: use_item_flow_def split: if_splits)

lemma aim_frame:
  assumes "aim a g = Inr (t, g')"
  shows "turn g' = turn g \<and> shotgun g' = shotgun g \<and> (\<forall>w. actor g' w = actor g w)"
  using assms by (auto simp add: aim_def split: if_splits sum.splits)

lemma example_human_no_items:
  "use_item_flow P (example_game sh i [] dinv inp) = Inr (example_game sh i [] dinv inp)"
  by (simp add: use_item_flow_def use_item_loop.simps prompt_choose_item_def example_game_def
      actor_def Actor_new_def)

text \<open>
  Claim C3. A resolved shot of \<open>A\<close> at \<open>T\<close> keeps the turn exactly when the shell is blank
  and \<open>A\<close> is \<open>T\<close>. In a step of \<open>turn_loop\<close> that reaches the shot, the turn afterwards is the
  opponent's if the shell was live, whoever was aimed at; if it was blank, the actor keeps
  the turn when the target was the actor and hands it to the opponent otherwise.
\<close>

theorem turn_retention:
  "(fire (shotgun g) = (Inr shell, sg) \<longrightarrow>
      (\<exists>g'. resolve_shot A T g = Inr (shell = BLANK \<and> A = T, g') \<and> turn g' = turn g)) \<and>
   (\<not> skip_next (actor g (turn g)) \<and> remaining (shotgun g) \<noteq> 0 \<and>
    use_item_flow (turn g) g = Inr gi \<and> aim (turn g) gi = Inr (T, ga) \<and>
    fire (shotgun ga) = (Inr shell, sg) \<longrightarrow>
      (\<exists>g'. turn_loop g = Inr g' \<and>
         turn g' = (if shell = LIVE then other (turn g)
                    else if T = turn g then turn g else other (turn g))))"
proof (intro conjI impI)
  assume "fire (shotgun g) = (Inr shell, sg)"
  then show "\<exists>g'. resolve_shot A T g = Inr (shell = BLANK \<and> A = T, g') \<and> turn g' = turn g"
    by (cases shell) (simp_all add: resolve_shot_def Let_def)
next
  assume a: "\<not> skip_next (actor g (turn g)) \<and> remaining (shotgun g) \<noteq> 0 \<and>
    use_item_flow (turn g) g = Inr gi \<and> aim (turn g) gi = Inr (T, ga) \<and>
    fire (shotgun ga) = (Inr shell, sg)"
  then have t2: "turn ga = turn g"
    using use_item_flow_frame[of "turn g" g gi] aim_frame[of "turn g" gi T ga] by simp
  from a have "\<exists>g3. resolve_shot (turn g) T ga = Inr (shell = BLANK \<and> turn g = T, g3) \<and> turn g3 = turn ga"
    by (cases shell) (simp_all add: resolve_shot_def Let_def)
  then obtain g3 where r: "resolve_shot (turn g) T ga = Inr (shell = BLANK \<and> turn g = T, g3)"
    and t3: "turn g3 = turn ga" by blast
  from a r have "turn_loop g =
      Inr (if \<not> (shell = BLANK \<and> turn g = T) then g3\<lparr>turn := other (turn g)\<rparr> else g3)"
    by (simp add: turn_loop_def Let_def)
  then show "\<exists>g'. turn_loop g = Inr g' \<and>
         turn g' = (if shell = LIVE then other (turn g)
                    else if T = turn g then turn g else other (turn g))"
    using t2 t3 by (cases shell) auto
qed

theorem turn_retention_witness:
  "(\<exists>g'. turn_loop (example_game [BLANK, LIVE] 0 [] [] [ASelf]) = Inr g' \<and> turn g' = P) \<and>
   (\<exists>g'. turn_loop (example_game [BLANK, LIVE] 0 [] [] [ADealer]) = Inr g' \<and> turn g' = D) \<and>
   (\<exists>g'. turn_loop (example_game [LIVE, BLANK] 0 [] [] [ASelf]) = Inr g' \<and> turn g' = D) \<and>
   (\<exists>g'. turn_loop (example_game [LIVE, BLANK] 0 [] [] [ADealer]) = Inr g' \<and> turn g' = D)"
proof -
  have pre: "\<And>sh inp. \<not> skip_next (actor (example_game sh 0 [] [] inp) (turn (example_game sh 0 [] [] inp)))"
    "\<And>sh inp. turn (example_game sh 0 [] [] inp) = P"
    "\<And>sh inp. remaining (shotgun (example_game sh 0 [] [] inp)) = int (length sh)"
    "\<And>sh inp. shotgun (example_game sh 0 [] [] inp) = \<lparr>shells = sh, index = 0\<rparr>"
    by (simp_all add: example_game_def actor_def Actor_new_def remaining_def)
  have aim_s: "\<And>sh. aim P (example_game sh 0 [] [] [ASelf]) = Inr (P, (example_game sh 0 [] [] [ASelf])\<lparr>stdin := []\<rparr>)"
    by (simp add: aim_def example_game_def actor_def Actor_new_def)
  have aim_d: "\<And>sh. aim P (example_game sh 0 [] [] [ADealer]) = Inr (D, (example_game sh 0 [] [] [ADealer])\<lparr>stdin := []\<rparr>)"
    by (simp add: aim_def example_game_def actor_def Actor_new_def)
  have f1: "fire \<lparr>shells = [BLANK, LIVE], index = 0\<rparr> = (Inr BLANK, \<lparr>shells = [BLANK, LIVE], index = 1\<rparr>)"
    and f2: "fire \<lparr>shells = [LIVE, BLANK], index = 0\<rparr> = (Inr LIVE, \<lparr>shells = [LIVE, BLANK], index = 1\<rparr>)"
    by (simp_all add: fire_def)
  have a: "\<exists>g'. turn_loop (example_game [BLANK, LIVE] 0 [] [] [ASelf]) = Inr g' \<and> turn g' = P"
    using turn_retention[where g = "example_game [BLANK, LIVE] 0 [] [] [ASelf]" and shell = BLANK
        and T = P and gi = "example_game [BLANK, LIVE] 0 [] [] [ASelf]"
        and ga = "(example_game [BLANK, LIVE] 0 [] [] [ASelf])\<lparr>stdin := []\<rparr>"
        and sg = "\<lparr>shells = [BLANK, LIVE], index = 1\<rparr>"]
      pre example_human_no_items aim_s f1 by simp
  have b: "\<exists>g'. turn_loop (example_game [BLANK, LIVE] 0 [] [] [ADealer]) = Inr g' \<and> turn g' = D"
    using turn_retention[where g = "example_game [BLANK, LIVE] 0 [] [] [ADealer]" and shell = BLANK
        and T = D and gi = "example_game [BLANK, LIVE] 0 [] [] [ADealer]"
        and ga = "(example_game [BLANK, LIVE] 0 [] [] [ADealer])\<lparr>stdin := []\<rparr>"
        and sg = "\<lparr>shells = [BLANK, LIVE], index = 1\<rparr>"]
      pre example_human_no_items aim_d f1 by simp
  have c: "\<exists>g'. turn_loop (example_game [LIVE, BLANK] 0 [] [] [ASelf]) = Inr g' \<and> turn g' = D"
    using turn_retention[where g = "example_game [LIVE, BLANK] 0 [] [] [ASelf]" and shell = LIVE
        and T = P and gi = "example_game [LIVE, BLANK] 0 [] [] [ASelf]"
        and ga = "(example_game [LIVE, BLANK] 0 [] [] [ASelf])\<lparr>stdin := []\<rparr>"
        and sg = "\<lparr>shells = [LIVE, BLANK], index = 1\<rparr>"]
      pre example_human_no_items aim_s f2 by simp
  have d: "\<exists>g'. turn_loop (example_game [LIVE, BLANK] 0 [] [] [ADealer]) = Inr g' \<and> turn g' = D"
    using turn_retention[where g = "example_game [LIVE, BLANK] 0 [] [] [ADealer]" and shell = LIVE
        and T = D and gi = "example_game [LIVE, BLANK] 0 [] [] [ADealer]"
        and ga = "(example_game [LIVE, BLANK] 0 [] [] [ADealer])\<lparr>stdin := []\<rparr>"
        and sg = "\<lparr>shells = [LIVE, BLANK], index = 1\<rparr>"]
      pre example_human_no_items aim_d f2 by simp
  from a b c d show ?thesis by blast
qed

subsection \<open>The new round\<close>

text \<open>
  \<open>sample_from\<close> draws without replacement: what it returns is a sub-multiset of the part of
  the pool still in play, so a pool without duplicates gives a sample without duplicates.
\<close>

lemma sample_step_mset:
  assumes "j < m" and "m \<le> length pool"
  shows "mset (pool ! j # take (m - 1) (pool[j := pool ! (m - 1)])) = mset (take m pool)"
proof -
  obtain n where m: "m = Suc n" using assms(1) by (cases m) auto
  have n: "n < length pool" using assms(2) m by simp
  have tk: "take m pool = take n pool @ [pool ! n]"
    using n m by (simp add: take_Suc_conv_app_nth)
  show ?thesis
  proof (cases "j = n")
    case True
    then show ?thesis using tk m by simp
  next
    case False
    with assms(1) m have jn: "j < n" by simp
    then have jl: "j < length (take n pool)" using n by simp
    have "take n (pool[j := pool ! n]) = (take n pool)[j := pool ! n]"
      by (simp add: take_update_swap)
    moreover have "mset ((take n pool)[j := pool ! n])
        = add_mset (pool ! n) (mset (take n pool) - {#take n pool ! j#})"
      using jl by (rule mset_update)
    moreover have "take n pool ! j = pool ! j" using jn by simp
    moreover have "pool ! j \<in># mset (take n pool)"
      using jl \<open>take n pool ! j = pool ! j\<close> by (metis nth_mem set_mset_mset)
    ultimately show ?thesis using tk m by simp
  qed
qed

lemma sample_from_props:
  "k \<le> m \<Longrightarrow> m \<le> length pool \<Longrightarrow>
     length (fst (sample_from pool m k r)) = k \<and>
     mset (fst (sample_from pool m k r)) \<subseteq># mset (take m pool)"
proof (induction k arbitrary: pool m r)
  case 0
  then show ?case by simp
next
  case (Suc k)
  let ?j = "r 0 mod m"
  let ?pool = "pool[?j := pool ! (m - 1)]"
  let ?r = "\<lambda>i. r (Suc i)"
  have m0: "0 < m" using Suc.prems(1) by simp
  then have j: "?j < m" by simp
  have "k \<le> m - 1" "m - 1 \<le> length ?pool" using Suc.prems by simp_all
  from Suc.IH[OF this, of ?r]
  have len: "length (fst (sample_from ?pool (m - 1) k ?r)) = k"
    and sub: "mset (fst (sample_from ?pool (m - 1) k ?r)) \<subseteq># mset (take (m - 1) ?pool)"
    by simp_all
  have res: "fst (sample_from pool m (Suc k) r) = pool ! ?j # fst (sample_from ?pool (m - 1) k ?r)"
    by (simp add: randbelow_def split: prod.splits)
  have "mset (pool ! ?j # fst (sample_from ?pool (m - 1) k ?r))
          \<subseteq># mset (pool ! ?j # take (m - 1) ?pool)"
    using sub by simp
  also have "\<dots> = mset (take m pool)"
    using j Suc.prems(2) by (rule sample_step_mset)
  finally show ?case using len res by simp
qed

lemma distinct_if_count_le_1:
  "(\<And>x. count (mset xs) x \<le> 1) \<Longrightarrow> distinct xs"
proof (induction xs)
  case Nil
  then show ?case by simp
next
  case (Cons a xs)
  have "count (mset xs) a = 0" using Cons.prems[of a] by simp
  then have "a \<notin> set xs" by (simp add: count_eq_zero_iff)
  moreover have "\<And>x. count (mset xs) x \<le> 1"
  proof -
    fix x
    have "count (mset xs) x \<le> count (mset (a # xs)) x" by simp
    then show "count (mset xs) x \<le> 1" using Cons.prems[of x] by (rule le_trans)
  qed
  ultimately show ?case using Cons.IH by simp
qed

lemma distinct_sub_mset:
  assumes "mset xs \<subseteq># mset ys" and "distinct ys"
  shows "distinct xs \<and> set xs \<subseteq> set ys"
proof
  show "distinct xs"
  proof (rule distinct_if_count_le_1)
    fix x
    have "count (mset xs) x \<le> count (mset ys) x"
      using assms(1) by (rule mset_subset_eq_count)
    also have "\<dots> \<le> 1"
      using assms(2) by (simp add: distinct_count_atmost_1)
    finally show "count (mset xs) x \<le> 1" .
  qed
  show "set xs \<subseteq> set ys" using set_mset_mono[OF assms(1)] by simp
qed

lemma distinct_item_pool: "distinct item_pool \<and> length item_pool = 8 \<and> set item_pool = UNIV"
proof -
  have "\<And>x. x \<in> set item_pool" subgoal for x by (cases x) (simp_all add: item_pool_def) done
  then show ?thesis by (auto simp add: item_pool_def)
qed

lemma sample_item_pool:
  assumes "0 \<le> k" and "k \<le> 8"
  shows "\<exists>items r'. sample item_pool k r = Inr (items, r') \<and> distinct items \<and>
           int (length items) = k \<and> set items \<subseteq> set item_pool"
proof -
  have l8: "length item_pool = 8" using distinct_item_pool by simp
  obtain items r' where s: "sample_from item_pool 8 (nat k) r = (items, r')"
    by (cases "sample_from item_pool 8 (nat k) r")
  have "nat k \<le> 8" using assms by simp
  from sample_from_props[OF this, of item_pool r] l8 s
  have len: "length items = nat k" and sub: "mset items \<subseteq># mset (take 8 item_pool)" by simp_all
  from sub l8 have sub': "mset items \<subseteq># mset item_pool" by simp
  from distinct_sub_mset[OF sub'] distinct_item_pool
  have "distinct items" "set items \<subseteq> set item_pool" by simp_all
  then show ?thesis using s len assms l8 by (simp add: sample_def)
qed


lemma deal_one_ok:
  assumes "0 \<le> fst (items_per_round (cfg g))"
    and "fst (items_per_round (cfg g)) \<le> snd (items_per_round (cfg g))"
    and "snd (items_per_round (cfg g)) \<le> 8"
  shows "\<exists>items r. deal_one w g =
            Inr (upd_actor w (\<lambda>a. a\<lparr>inventory := items, knowledge := Knowledge_new\<rparr>)
                   (g\<lparr>rand := r\<rparr>)) \<and>
           distinct items \<and> set items \<subseteq> set item_pool \<and>
           fst (items_per_round (cfg g)) \<le> int (length items) \<and>
           int (length items) \<le> snd (items_per_round (cfg g))"
proof -
  let ?lo = "fst (items_per_round (cfg g))" and ?hi = "snd (items_per_round (cfg g))"
  obtain k r1 where k: "randint ?lo ?hi (rand g) = Inr (k, r1)" "?lo \<le> k" "k \<le> ?hi"
    using randint_range[OF assms(2), of "rand g"] by blast
  have "0 \<le> k" "k \<le> 8" using k assms by simp_all
  from sample_item_pool[OF this, of r1] obtain items r2 where
    s: "sample item_pool k r1 = Inr (items, r2)" "distinct items" "int (length items) = k"
      "set items \<subseteq> set item_pool"
    by blast
  have "deal_one w g =
      Inr (upd_actor w (\<lambda>a. a\<lparr>inventory := items, knowledge := Knowledge_new\<rparr>) (g\<lparr>rand := r2\<rparr>))"
    using k(1) s(1) by (simp add: deal_one_def)
  with s k show ?thesis by auto
qed

lemma deal_items_ok:
  assumes "0 \<le> fst (items_per_round (cfg g))"
    and "fst (items_per_round (cfg g)) \<le> snd (items_per_round (cfg g))"
    and "snd (items_per_round (cfg g)) \<le> 8"
  shows "\<exists>g'. deal_items g = Inr g' \<and>
           (\<forall>w. distinct (inventory (actor g' w)) \<and>
                set (inventory (actor g' w)) \<subseteq> set item_pool \<and>
                fst (items_per_round (cfg g)) \<le> int (length (inventory (actor g' w))) \<and>
                int (length (inventory (actor g' w))) \<le> snd (items_per_round (cfg g)) \<and>
                actor g' w = (actor g w)\<lparr>inventory := inventory (actor g' w),
                                           knowledge := Knowledge_new\<rparr>) \<and>
           shotgun g' = shotgun g \<and> turn g' = turn g \<and> cfg g' = cfg g \<and>
           round_no g' = round_no g \<and> transcript g' = transcript g \<and> stdin g' = stdin g"
proof -
  from deal_one_ok[OF assms, of P] obtain ip r1 where
    p: "deal_one P g = Inr (upd_actor P (\<lambda>a. a\<lparr>inventory := ip, knowledge := Knowledge_new\<rparr>)
                              (g\<lparr>rand := r1\<rparr>))"
      "distinct ip" "set ip \<subseteq> set item_pool"
      "fst (items_per_round (cfg g)) \<le> int (length ip)"
      "int (length ip) \<le> snd (items_per_round (cfg g))"
    by blast
  let ?g1 = "upd_actor P (\<lambda>a. a\<lparr>inventory := ip, knowledge := Knowledge_new\<rparr>) (g\<lparr>rand := r1\<rparr>)"
  have c1: "cfg ?g1 = cfg g" by simp
  from deal_one_ok[of ?g1 D] assms obtain idl r2 where
    d: "deal_one D ?g1 = Inr (upd_actor D (\<lambda>a. a\<lparr>inventory := idl, knowledge := Knowledge_new\<rparr>)
                              (?g1\<lparr>rand := r2\<rparr>))"
      "distinct idl" "set idl \<subseteq> set item_pool"
      "fst (items_per_round (cfg g)) \<le> int (length idl)"
      "int (length idl) \<le> snd (items_per_round (cfg g))"
    unfolding c1 by blast
  let ?g2 = "upd_actor D (\<lambda>a. a\<lparr>inventory := idl, knowledge := Knowledge_new\<rparr>) (?g1\<lparr>rand := r2\<rparr>)"
  have run: "deal_items g = Inr ?g2" using p(1) d(1) by (simp add: deal_items_def)
  have aP: "actor ?g2 P = (actor g P)\<lparr>inventory := ip, knowledge := Knowledge_new\<rparr>"
    by simp
  have aD: "actor ?g2 D = (actor g D)\<lparr>inventory := idl, knowledge := Knowledge_new\<rparr>"
    by simp
  have "distinct (inventory (actor ?g2 w)) \<and>
        set (inventory (actor ?g2 w)) \<subseteq> set item_pool \<and>
        fst (items_per_round (cfg g)) \<le> int (length (inventory (actor ?g2 w))) \<and>
        int (length (inventory (actor ?g2 w))) \<le> snd (items_per_round (cfg g)) \<and>
        actor ?g2 w = (actor g w)\<lparr>inventory := inventory (actor ?g2 w),
                                   knowledge := Knowledge_new\<rparr>" for w
  proof (cases w)
    case P
    then show ?thesis unfolding P aP using p by simp
  next
    case D
    then show ?thesis unfolding D aD using d by simp
  qed
  moreover have "shotgun ?g2 = shotgun g \<and> turn ?g2 = turn g \<and> cfg ?g2 = cfg g \<and>
           round_no ?g2 = round_no g \<and> transcript ?g2 = transcript g \<and> stdin ?g2 = stdin g"
    by simp
  ultimately show ?thesis using run by blast
qed

text \<open>
  Claim C5, amended. For a configuration whose shell bounds satisfy
  \<open>2 \<le> min_shells \<le> max_shells\<close> and whose item range lies within 0 and the size of the
  catalog, a step of \<open>turn_loop\<close> that starts with the actor's \<open>skip_next\<close> clear and no
  shell remaining is a reload: the round counter grows by one, the shotgun is the one
  \<open>load\<close> returns (cursor 0), each inventory is a duplicate-free selection from the catalog
  of a size within the configured range, each knowledge store is empty, the player has the
  turn, and nothing else about the actors changes: no shot is fired, and the log gains the
  new-round line only.
\<close>

theorem reload_step:
  assumes "\<not> skip_next (actor g (turn g))" and "remaining (shotgun g) = 0"
    and "2 \<le> min_shells (cfg g)" and "min_shells (cfg g) \<le> max_shells (cfg g)"
    and "0 \<le> fst (items_per_round (cfg g))"
    and "fst (items_per_round (cfg g)) \<le> snd (items_per_round (cfg g))"
    and "snd (items_per_round (cfg g)) \<le> int (length item_pool)"
  shows "\<exists>g' r. turn_loop g = Inr g' \<and>
           round_no g' = round_no g + 1 \<and>
           load (min_shells (cfg g)) (max_shells (cfg g)) (rand g) = Inr (shotgun g', r) \<and>
           index (shotgun g') = 0 \<and>
           (\<forall>w. distinct (inventory (actor g' w)) \<and>
                set (inventory (actor g' w)) \<subseteq> set item_pool \<and>
                fst (items_per_round (cfg g)) \<le> int (length (inventory (actor g' w))) \<and>
                int (length (inventory (actor g' w))) \<le> snd (items_per_round (cfg g)) \<and>
                knowledge (actor g' w) = \<lparr>current_known = None, known_positions = Map.empty\<rparr> \<and>
                actor g' w = (actor g w)\<lparr>inventory := inventory (actor g' w),
                                           knowledge := knowledge (actor g' w)\<rparr>) \<and>
           turn g' = P \<and>
           transcript g' = transcript g @ [MsgNewRound] \<and>
           cfg g' = cfg g \<and> stdin g' = stdin g"
proof -
  let ?g1 = "log MsgNewRound (g\<lparr>round_no := round_no g + 1\<rparr>)"
  from load_invariant[OF assms(3,4), of "rand g"] obtain sg r where
    ld: "load (min_shells (cfg g)) (max_shells (cfg g)) (rand g) = Inr (sg, r)" "index sg = 0"
    by blast
  let ?g2 = "?g1\<lparr>shotgun := sg, rand := r\<rparr>"
  have l8: "int (length item_pool) = 8" by (simp add: item_pool_def)
  have c2: "cfg ?g2 = cfg g" by simp
  from deal_items_ok[of ?g2] assms(5-7) obtain g3 where
    dl: "deal_items ?g2 = Inr g3"
    and each: "\<forall>w. distinct (inventory (actor g3 w)) \<and>
                set (inventory (actor g3 w)) \<subseteq> set item_pool \<and>
                fst (items_per_round (cfg g)) \<le> int (length (inventory (actor g3 w))) \<and>
                int (length (inventory (actor g3 w))) \<le> snd (items_per_round (cfg g)) \<and>
                actor g3 w = (actor ?g2 w)\<lparr>inventory := inventory (actor g3 w),
                                           knowledge := Knowledge_new\<rparr>"
    and rest: "shotgun g3 = shotgun ?g2" "turn g3 = turn ?g2" "cfg g3 = cfg ?g2"
           "round_no g3 = round_no ?g2" "transcript g3 = transcript ?g2" "stdin g3 = stdin ?g2"
    unfolding c2 l8 by blast
  have run: "turn_loop g = Inr (g3\<lparr>turn := P\<rparr>)"
    using assms(1,2) ld(1) dl by (simp add: turn_loop_def reload_def Let_def)
  have a2: "actor ?g2 w = actor g w" for w by simp
  have kn: "knowledge (actor g3 w) = \<lparr>current_known = None, known_positions = Map.empty\<rparr>" for w
  proof -
    from each have "actor g3 w = (actor ?g2 w)\<lparr>inventory := inventory (actor g3 w),
                                           knowledge := Knowledge_new\<rparr>" by blast
    then have "knowledge (actor g3 w) = Knowledge_new" by (metis Actor.select_convs(8) Actor.surjective Actor.update_convs(4,8))
    then show ?thesis by (simp add: Knowledge_new_def)
  qed
  have "round_no (g3\<lparr>turn := P\<rparr>) = round_no g + 1" using rest by simp
  moreover have "load (min_shells (cfg g)) (max_shells (cfg g)) (rand g)
      = Inr (shotgun (g3\<lparr>turn := P\<rparr>), r)" using ld rest by simp
  moreover have "index (shotgun (g3\<lparr>turn := P\<rparr>)) = 0" using ld rest by simp
  moreover have "\<forall>w. distinct (inventory (actor (g3\<lparr>turn := P\<rparr>) w)) \<and>
                set (inventory (actor (g3\<lparr>turn := P\<rparr>) w)) \<subseteq> set item_pool \<and>
                fst (items_per_round (cfg g)) \<le> int (length (inventory (actor (g3\<lparr>turn := P\<rparr>) w))) \<and>
                int (length (inventory (actor (g3\<lparr>turn := P\<rparr>) w))) \<le> snd (items_per_round (cfg g)) \<and>
                knowledge (actor (g3\<lparr>turn := P\<rparr>) w) = \<lparr>current_known = None, known_positions = Map.empty\<rparr> \<and>
                actor (g3\<lparr>turn := P\<rparr>) w = (actor g w)\<lparr>inventory := inventory (actor (g3\<lparr>turn := P\<rparr>) w),
                                           knowledge := knowledge (actor (g3\<lparr>turn := P\<rparr>) w)\<rparr>"
    using each kn a2 by (simp add: Knowledge_new_def)
  moreover have "turn (g3\<lparr>turn := P\<rparr>) = P \<and>
           transcript (g3\<lparr>turn := P\<rparr>) = transcript g @ [MsgNewRound] \<and>
           cfg (g3\<lparr>turn := P\<rparr>) = cfg g \<and> stdin (g3\<lparr>turn := P\<rparr>) = stdin g"
    using rest by simp
  ultimately show ?thesis using run by blast
qed

theorem reload_step_witness:
  "\<not> skip_next (actor (example_game [LIVE, BLANK] 2 [BEER] [] []) P) \<and>
   remaining (shotgun (example_game [LIVE, BLANK] 2 [BEER] [] [])) = 0 \<and>
   (\<exists>g'. turn_loop (example_game [LIVE, BLANK] 2 [BEER] [] []) = Inr g' \<and>
      round_no g' = 2 \<and> turn g' = P \<and> transcript g' = [MsgNewRound] \<and>
      shotgun g' = \<lparr>shells = [BLANK, LIVE], index = 0\<rparr> \<and>
      inventory (actor g' P) = [INVERTER, BURNER_PHONE] \<and>
      inventory (actor g' D) = [ADRENALINE, BEER] \<and>
      knowledge (actor g' P) = \<lparr>current_known = None, known_positions = Map.empty\<rparr> \<and>
      knowledge (actor g' D) = \<lparr>current_known = None, known_positions = Map.empty\<rparr> \<and>
      hp (actor g' P) = 4 \<and> hp (actor g' D) = 4)"
proof -
  let ?g = "example_game [LIVE, BLANK] 2 [BEER] [] []"
  have h: "\<not> skip_next (actor ?g (turn ?g))" "remaining (shotgun ?g) = 0"
    "2 \<le> min_shells (cfg ?g)" "min_shells (cfg ?g) \<le> max_shells (cfg ?g)"
    "0 \<le> fst (items_per_round (cfg ?g))"
    "fst (items_per_round (cfg ?g)) \<le> snd (items_per_round (cfg ?g))"
    "snd (items_per_round (cfg ?g)) \<le> int (length item_pool)"
    by (simp_all add: example_game_def actor_def Actor_new_def remaining_def Config_default_def
        item_pool_def)
  have t: "turn ?g = P" "round_no ?g = 1" "transcript ?g = []"
    "hp (actor ?g P) = 4" "hp (actor ?g D) = 4"
    by (simp_all add: example_game_def actor_def Actor_new_def)
  have ev: "(case turn_loop ?g of Inl e \<Rightarrow> None
             | Inr g' \<Rightarrow> Some (shells (shotgun g'), inventory (player g'), inventory (dealer g')))
            = Some ([BLANK, LIVE], [INVERTER, BURNER_PHONE], [ADRENALINE, BEER])"
    by code_simp
  from reload_step[OF h] obtain g' r where
    g': "turn_loop ?g = Inr g'" "round_no g' = round_no ?g + 1" "index (shotgun g') = 0"
      "\<forall>w. knowledge (actor g' w) = \<lparr>current_known = None, known_positions = Map.empty\<rparr> \<and>
           actor g' w = (actor ?g w)\<lparr>inventory := inventory (actor g' w),
                                      knowledge := knowledge (actor g' w)\<rparr>"
      "turn g' = P" "transcript g' = transcript ?g @ [MsgNewRound]"
    by blast
  from g'(4) have hpP: "hp (actor g' P) = hp (actor ?g P)" and hpD: "hp (actor g' D) = hp (actor ?g D)"
    by (metis Actor.select_convs(3) Actor.surjective Actor.update_convs(4,8))+
  from ev g'(1) have sh: "shells (shotgun g') = [BLANK, LIVE]"
    "inventory (actor g' P) = [INVERTER, BURNER_PHONE]"
    "inventory (actor g' D) = [ADRENALINE, BEER]"
    by (simp_all add: actor_def)
  from sh(1) g'(3) have "shotgun g' = \<lparr>shells = [BLANK, LIVE], index = 0\<rparr>" by simp
  with g' sh hpP hpD t h show ?thesis by simp
qed

text \<open>
  Without the condition on the configuration the step can raise instead. A game with
  \<open>items_per_round = (2, 9)\<close>: \<^verbatim>\<open>Game.__init__\<close> deals two items to each actor, the player
  fires the blank at themself and the live shell at the dealer, and the step that follows
  starts with both actors alive, \<open>skip_next\<close> clear and no shell remaining; it draws nine
  for the player's items, and \<^verbatim>\<open>random.sample\<close> of nine from the eight of the catalog
  raises \<^verbatim>\<open>ValueError\<close>.
\<close>

lemma reload_raises_run:
  "(case Game_init (Config_default\<lparr>items_per_round := (2, 9)\<rparr>) (\<lambda>i. if i = 12 then 7 else 0)
           [AEmpty, ASelf, AEmpty, ADealer] of
      Inl e \<Rightarrow> None
    | Inr g0 \<Rightarrow>
        (case turn_loop g0 of
           Inl e \<Rightarrow> None
         | Inr g1 \<Rightarrow>
             (case turn_loop g1 of
                Inl e \<Rightarrow> None
              | Inr g2 \<Rightarrow>
                  Some (is_alive (player g0) \<and> is_alive (dealer g0),
                        is_alive (player g1) \<and> is_alive (dealer g1),
                        is_alive (player g2) \<and> is_alive (dealer g2),
                        skip_next (actor g2 (turn g2)), remaining (shotgun g2),
                        (case turn_loop g2 of Inl e \<Rightarrow> Some e | Inr g3 \<Rightarrow> None)))))
   = Some (True, True, True, False, 0, Some ValueError)"
  by code_simp

text \<open>
  Claim C5 as worded, for every such step of every reachable state, is therefore false.
\<close>

theorem reload_step_counterexample:
  "\<not> (\<forall>g. reachable g \<and> is_alive (player g) \<and> is_alive (dealer g) \<and>
          \<not> skip_next (actor g (turn g)) \<and> remaining (shotgun g) = 0 \<longrightarrow>
          (\<exists>g'. turn_loop g = Inr g' \<and> round_no g' = round_no g + 1 \<and> turn g' = P))"
proof
  assume all: "\<forall>g. reachable g \<and> is_alive (player g) \<and> is_alive (dealer g) \<and>
          \<not> skip_next (actor g (turn g)) \<and> remaining (shotgun g) = 0 \<longrightarrow>
          (\<exists>g'. turn_loop g = Inr g' \<and> round_no g' = round_no g + 1 \<and> turn g' = P)"
  from reload_raises_run obtain g0 g1 g2 where
    i: "Game_init (Config_default\<lparr>items_per_round := (2, 9)\<rparr>) (\<lambda>i. if i = 12 then 7 else 0)
          [AEmpty, ASelf, AEmpty, ADealer] = Inr g0"
    and t: "turn_loop g0 = Inr g1" "turn_loop g1 = Inr g2"
    and a: "is_alive (player g0)" "is_alive (dealer g0)" "is_alive (player g1)" "is_alive (dealer g1)"
      "is_alive (player g2)" "is_alive (dealer g2)"
    and f: "\<not> skip_next (actor g2 (turn g2))" "remaining (shotgun g2) = 0"
    and e: "turn_loop g2 = Inl ValueError"
    by (auto split: sum.splits)
  from i have "reachable g0" by (rule reachable_init)
  from this a(1,2) t(1) have "reachable g1" by (rule reachable_turn)
  from this a(3,4) t(2) have "reachable g2" by (rule reachable_turn)
  with all a(5,6) f obtain g' where "turn_loop g2 = Inr g'" by blast
  with e show False by simp
qed

section \<open>Adrenaline\<close>

text \<open>
  When the user is AI-controlled the stolen item is drawn from the target's inventory and
  one occurrence of it is removed before its effect runs for the user. When the user is
  human and the target AI-controlled, \<open>prompt_choose_item\<close> declines at once and nothing is
  stolen.
\<close>

lemma adrenaline_ai_user:
  assumes "ai (actor g user)" and "inventory (actor g target) \<noteq> []"
  shows "\<exists>sid r. choice (inventory (actor g target)) (rand g) = Inr (sid, r) \<and>
           sid \<in> set (inventory (actor g target)) \<and>
           Suc (length (remove1 sid (inventory (actor g target)))) = length (inventory (actor g target)) \<and>
           item_use ADRENALINE user target g =
             item_use sid user target
               (log (MsgSteal (name (actor g user)) sid (name (actor g target)))
                  (upd_actor target (\<lambda>a. a\<lparr>inventory := remove1 sid (inventory a)\<rparr>)
                     (g\<lparr>rand := r\<rparr>)))"
proof -
  let ?inv = "inventory (actor g target)"
  let ?sid = "?inv ! (rand g 0 mod length ?inv)"
  let ?r = "\<lambda>i. rand g (Suc i)"
  have c: "choice ?inv (rand g) = Inr (?sid, ?r)"
    using assms(2) by (simp add: choice_def randbelow_def)
  have m: "?sid \<in> set ?inv" using assms(2) by simp
  then have l: "Suc (length (remove1 ?sid ?inv)) = length ?inv"
    using length_pos_if_in_set[OF m] by (simp add: length_remove1)
  have p: "upd_actor target (pop_item ?sid) (g\<lparr>rand := ?r\<rparr>)
      = upd_actor target (\<lambda>a. a\<lparr>inventory := remove1 ?sid (inventory a)\<rparr>) (g\<lparr>rand := ?r\<rparr>)"
    using m by (cases target) (simp_all add: upd_actor_def pop_item_def actor_def)
  have n: "name (actor (upd_actor target (\<lambda>a. a\<lparr>inventory := remove1 ?sid (inventory a)\<rparr>)
                    (g\<lparr>rand := ?r\<rparr>)) w) = name (actor g w)" for w
    by (cases "w = target") simp_all
  have "item_use ADRENALINE user target g =
      item_use ?sid user target
        (log (MsgSteal (name (actor g user)) ?sid (name (actor g target)))
           (upd_actor target (\<lambda>a. a\<lparr>inventory := remove1 ?sid (inventory a)\<rparr>)
              (g\<lparr>rand := ?r\<rparr>)))"
    using assms c by (simp add: steal_choice_def Let_def p n del: item_use.simps(1-7))
  with c m l show ?thesis by blast
qed

lemma adrenaline_human_user_ai_target:
  assumes "\<not> ai (actor g user)" and "ai (actor g target)" and "inventory (actor g target) \<noteq> []"
  shows "item_use ADRENALINE user target g = Inr (log (MsgCancelSteal (name (actor g user))) g)"
  using assms by (simp add: steal_choice_def prompt_choose_item_def)


















text \<open>
  With a human user the chooser \<open>prompt_choose_item\<close> has already removed the chosen item
  when \<^verbatim>\<open>Adrenaline.use\<close> calls \<open>pop_item\<close> again. The second call finds nothing to remove
  unless the target held the item twice. No game holds such a target, a human-controlled
  actor with a duplicate; in a state written down by hand, with \<open>[HAND_SAW, HAND_SAW, BEER]\<close>
  and the choice \<^verbatim>\<open>1\<close>, the use ends with \<open>[BEER]\<close>.
\<close>

lemma adrenaline_duplicates_human_chooser:
  "(ai (actor example_second_human P), ai (actor example_second_human D),
    inventory (actor example_second_human D),
    (case steal_choice P D example_second_human of
       Inl e \<Rightarrow> None
     | Inr (steal_id, g1) \<Rightarrow> Some (steal_id, inventory (actor g1 D))),
    (case item_use ADRENALINE P D example_second_human of
       Inl e \<Rightarrow> None
     | Inr g \<Rightarrow> Some (inventory (actor g D), inventory (actor g P), dmg_mult (actor g P),
                       transcript g)))
   = (False, False, [HAND_SAW, HAND_SAW, BEER],
      Some (Some HAND_SAW, [HAND_SAW, BEER]),
      Some ([BEER], [], 2, [MsgSteal ''You'' HAND_SAW ''Dealer'', MsgHandSaw ''You'']))"
  by code_simp



section \<open>Firing an empty shotgun\<close>

text \<open>
  The dealer's item pass only racks the shotgun while more than two shells remain, so it
  never takes the last shell.
\<close>

lemma ai_maybe_use_item_keeps_shell:
  assumes "ai_maybe_use_item a g = Inr g'" and "1 \<le> remaining (shotgun g)"
  shows "1 \<le> remaining (shotgun g')"
proof -
  have c: "\<And>g g'. ai_cigarette a g = Inr g' \<Longrightarrow> shotgun g' = shotgun g"
    by (auto simp add: ai_cigarette_def Cigarette_use_def Let_def split: if_splits prod.splits)
  have gl: "\<And>g g' p q. ai_glass a p g = Inr (q, g') \<Longrightarrow> shotgun g' = shotgun g"
    by (auto simp add: ai_glass_def MagnifyingGlass_use_def
        split: if_splits prod.splits sum.splits option.splits)
  have s: "\<And>g g' p. ai_saw a p g = Inr g' \<Longrightarrow> shotgun g' = shotgun g"
    by (auto simp add: ai_saw_def HandSaw_use_def Let_def split: if_splits prod.splits)
  have b: "\<And>g g'. ai_beer a g = Inr g' \<Longrightarrow> 1 \<le> remaining (shotgun g) \<Longrightarrow>
      1 \<le> remaining (shotgun g')"
    by (auto simp add: ai_beer_def Beer_use_def eject_current_def fire_def remaining_def
        split: if_splits prod.splits sum.splits)
  have h: "\<And>g g' p. ai_handcuffs a p g = Inr g' \<Longrightarrow> shotgun g' = shotgun g"
    by (auto simp add: ai_handcuffs_def Handcuffs_use_def Let_def split: if_splits prod.splits)
  from assms(1) obtain g1 p2 g2 g3 g4 where
    "ai_cigarette a g = Inr g1" "ai_glass a (p_live_of g) g1 = Inr (p2, g2)"
    "ai_saw a p2 g2 = Inr g3" "ai_beer a g3 = Inr g4" "ai_handcuffs a p2 g4 = Inr g'"
    by (auto simp add: ai_maybe_use_item_def Let_def split: sum.splits prod.splits)
  with c gl s b h assms(2) show ?thesis by metis
qed

text \<open>
  A run of the default game, evaluated: the state built by \<^verbatim>\<open>Game.__init__\<close>, one step of
  \<open>turn_loop\<close>, then the item phase and the whole next step.
\<close>

lemma beer_run:
  "(case Game_init Config_default (\<lambda>i. if i = 4 then 1 else i)
           [AEmpty, ASelf, ADigits 1, AEmpty, ADealer] of
      Inl e \<Rightarrow> None
    | Inr g0 \<Rightarrow>
        (case turn_loop g0 of
           Inl e \<Rightarrow> None
         | Inr g1 \<Rightarrow>
             Some (is_alive (player g0) \<and> is_alive (dealer g0),
                   is_alive (player g1) \<and> is_alive (dealer g1),
                   turn g1, skip_next (actor g1 P), inventory (actor g1 P),
                   remaining (shotgun g1),
                   (case use_item_flow P g1 of
                      Inl e \<Rightarrow> None
                    | Inr g2 \<Rightarrow> Some (remaining (shotgun g2), transcript g2)),
                   (case turn_loop g1 of Inl e \<Rightarrow> Some e | Inr g2 \<Rightarrow> None))))
   = Some (True, True, P, False, [BEER, BURNER_PHONE], 1,
           Some (0, [MsgBlank ''You'' ''You'', MsgBeer ''You'' LIVE]),
           Some RuntimeError)"
  by code_simp

text \<open>
  Claim C1. \<open>fire\<close> should never be called on an exhausted sequence. A game of the default
  configuration that starts with the shells \<open>[BLANK, LIVE]\<close> and the player holding Beer:
  the player shoots themself with the blank and keeps the turn; in the next step one shell
  remains, the player uses Beer, which ejects it, and the step goes on to the shot, where
  \<open>fire\<close> raises.
\<close>

theorem beer_then_fire_raises:
  "\<exists>g0 g1 g2.
      Game_init Config_default (\<lambda>i. if i = 4 then 1 else i)
        [AEmpty, ASelf, ADigits 1, AEmpty, ADealer] = Inr g0 \<and>
      turn_loop g0 = Inr g1 \<and> reachable g1 \<and>
      is_alive (player g1) \<and> is_alive (dealer g1) \<and> turn g1 = P \<and>
      \<not> skip_next (actor g1 P) \<and> remaining (shotgun g1) = 1 \<and>
      inventory (actor g1 P) = [BEER, BURNER_PHONE] \<and>
      use_item_flow P g1 = Inr g2 \<and> remaining (shotgun g2) = 0 \<and>
      transcript g2 = [MsgBlank ''You'' ''You'', MsgBeer ''You'' LIVE] \<and>
      turn_loop g1 = Inl RuntimeError"
proof -
  from beer_run obtain g0 g1 g2 where
    i: "Game_init Config_default (\<lambda>i. if i = 4 then 1 else i)
          [AEmpty, ASelf, ADigits 1, AEmpty, ADealer] = Inr g0"
    and t: "turn_loop g0 = Inr g1"
    and a0: "is_alive (player g0)" "is_alive (dealer g0)"
    and f: "is_alive (player g1)" "is_alive (dealer g1)" "turn g1 = P" "\<not> skip_next (actor g1 P)"
      "inventory (actor g1 P) = [BEER, BURNER_PHONE]" "remaining (shotgun g1) = 1"
    and u: "use_item_flow P g1 = Inr g2" "remaining (shotgun g2) = 0"
      "transcript g2 = [MsgBlank ''You'' ''You'', MsgBeer ''You'' LIVE]"
    and e: "turn_loop g1 = Inl RuntimeError"
    by (auto split: sum.splits)
  from i have "reachable g0" by (rule reachable_init)
  from this a0 t have "reachable g1" by (rule reachable_turn)
  with i t f u e show ?thesis by blast
qed

section \<open>Knowledge of the chamber\<close>

lemma knows_currentI:
  assumes "shotgun g' = shotgun g" and "\<And>w. knowledge (actor g' w) = knowledge (actor g w)"
    and "knows_current a g"
  shows "knows_current a g'"
  using assms by (simp add: knows_current_def)

lemma knowledge_upd_actor:
  assumes "\<And>x. knowledge (f x) = knowledge x"
  shows "knowledge (actor (upd_actor w f g) v) = knowledge (actor g v)"
  using assms by (cases "v = w") simp_all

lemma basic_use_knows_current:
  assumes "iid \<noteq> ADRENALINE" and "item_use iid a target g = Inr g'" and "knows_current a g"
  shows "knows_current a g'"
proof (cases iid)
  case MAGNIFYING_GLASS
  with assms(2,3) show ?thesis
    by (auto simp add: MagnifyingGlass_use_def knows_current_def set_current_known_def
        split: sum.splits)
next
  case BEER
  with assms(2,3) show ?thesis
    by (auto simp add: Beer_use_def knows_current_def set_current_known_def
        split: sum.splits prod.splits if_splits option.splits)
next
  case HANDCUFFS
  with assms(2) have "shotgun g' = shotgun g" "\<And>w. knowledge (actor g' w) = knowledge (actor g w)"
    by (auto simp add: Handcuffs_use_def Let_def knowledge_upd_actor)
  then show ?thesis using assms(3) by (rule knows_currentI)
next
  case HAND_SAW
  with assms(2) have "shotgun g' = shotgun g" "\<And>w. knowledge (actor g' w) = knowledge (actor g w)"
    by (auto simp add: HandSaw_use_def Let_def knowledge_upd_actor)
  then show ?thesis using assms(3) by (rule knows_currentI)
next
  case INVERTER
  show ?thesis
  proof (cases "current_known (knowledge (actor g a))")
    case None
    with INVERTER assms(2,3) show ?thesis
      by (auto simp add: Inverter_use_def knows_current_def Let_def)
  next
    case (Some k)
    with assms(3) have pk: "peek_current (shotgun g) = Inr k"
      and no: "current_known (knowledge (actor g (other a))) = None"
      by (simp_all add: knows_current_def)
    from pk have lt: "index (shotgun g) < length (shells (shotgun g))"
      and k: "shells (shotgun g) ! index (shotgun g) = k"
      by (simp_all add: peek_current_def split: if_splits)
    from INVERTER assms(2) Some lt k no show ?thesis
      by (auto simp add: Inverter_use_def knows_current_def Let_def invert_current_def
          peek_current_def set_current_known_def)
  qed
next
  case BURNER_PHONE
  with assms(2) have "shotgun g' = shotgun g"
    by (auto simp add: BurnerPhone_use_def Let_def split: if_splits sum.splits prod.splits)
  moreover from BURNER_PHONE assms(2)
  have "\<And>w. current_known (knowledge (actor g' w)) = current_known (knowledge (actor g w))"
    subgoal for w
      by (cases "w = a")
        (auto simp add: BurnerPhone_use_def Let_def split: if_splits sum.splits prod.splits)
    done
  ultimately show ?thesis using assms(3) by (simp add: knows_current_def)
next
  case CIGARETTE
  with assms(2) have "shotgun g' = shotgun g" "\<And>w. knowledge (actor g' w) = knowledge (actor g w)"
    by (auto simp add: Cigarette_use_def Let_def heal_def knowledge_upd_actor)
  then show ?thesis using assms(3) by (rule knows_currentI)
next
  case ADRENALINE
  with assms(1) show ?thesis by simp
qed


lemma prompt_choose_item_knowledge:
  assumes "prompt_choose_item b g = Inr (x, g1)"
  shows "shotgun g1 = shotgun g \<and> (\<forall>w. knowledge (actor g1 w) = knowledge (actor g w))"
  using assms
  by (auto simp add: prompt_choose_item_def knowledge_upd_actor
      split: if_splits sum.splits option.splits)

lemma steal_choice_knowledge:
  assumes "steal_choice user target g = Inr (x, g1)"
  shows "shotgun g1 = shotgun g \<and> (\<forall>w. knowledge (actor g1 w) = knowledge (actor g w))"
  using assms
  by (auto simp add: steal_choice_def dest: prompt_choose_item_knowledge
      split: if_splits sum.splits)

lemma item_use_knows_current:
  assumes "item_use iid a target g = Inr g'"
  shows "knows_current a g \<Longrightarrow> knows_current a g'"
  using assms
proof (induction rule: item_use_result_induct)
  case (basic iid g g')
  then show ?case using basic_use_knows_current by blast
next
  case (nothing g)
  then show ?case by (simp add: knows_current_def)
next
  case (cancel g g1)
  from steal_choice_knowledge[OF cancel(2)] cancel(3) show ?case
    by (simp add: knows_current_def)
next
  case (steal g sid g1 g')
  from steal_choice_knowledge[OF steal(2)] steal(5)
  have "knows_current a
      (log (MsgSteal (name (actor (upd_actor target (pop_item sid) g1) a)) sid
              (name (actor (upd_actor target (pop_item sid) g1) target)))
         (upd_actor target (pop_item sid) g1))"
    by (simp add: knows_current_def knowledge_upd_actor)
  then show ?case by (rule steal(4))
qed

lemma popped_knows_current:
  "knows_current a g \<Longrightarrow> knows_current a (upd_actor b (pop_item i) (g\<lparr>rand := r\<rparr>))"
  by (simp add: knows_current_def knowledge_upd_actor)

lemma rand_knows_current: "knows_current a g \<Longrightarrow> knows_current a (g\<lparr>rand := r\<rparr>)"
  by (simp add: knows_current_def)

lemma ai_steps_knows_current:
  assumes "knows_current a g"
  shows "ai_cigarette a g = Inr g' \<Longrightarrow> knows_current a g'"
    and "ai_glass a p g = Inr (q, g') \<Longrightarrow> knows_current a g'"
    and "ai_saw a p g = Inr g' \<Longrightarrow> knows_current a g'"
    and "ai_beer a g = Inr g' \<Longrightarrow> knows_current a g'"
    and "ai_handcuffs a p g = Inr g' \<Longrightarrow> knows_current a g'"
  using assms popped_knows_current[OF assms, of a] rand_knows_current[OF assms]
  by (auto simp add: ai_cigarette_def ai_glass_def ai_saw_def ai_beer_def ai_handcuffs_def
      simp del: item_use.simps
      split: if_splits prod.splits sum.splits option.splits
      dest: item_use_knows_current)

lemma aim_knows_current:
  assumes "aim a g = Inr (t, g')" and "knows_current b g"
  shows "knows_current b g'"
  using assms aim_frame[OF assms(1)] by (simp add: knows_current_def)

lemma deal_one_knowledge:
  assumes "deal_one w g = Inr g'"
  shows "knowledge (actor g' w) = Knowledge_new \<and>
         (\<forall>v. v \<noteq> w \<longrightarrow> actor g' v = actor g v)"
  using assms by (auto simp add: deal_one_def split: sum.splits prod.splits)

lemma deal_items_knowledge:
  assumes "deal_items g = Inr g'"
  shows "knowledge (actor g' w) = Knowledge_new"
proof -
  from assms obtain g1 where a: "deal_one P g = Inr g1" and b: "deal_one D g1 = Inr g'"
    by (auto simp add: deal_items_def split: sum.splits)
  from deal_one_knowledge[OF a] deal_one_knowledge[OF b] show ?thesis
    by (cases w) auto
qed

lemma resolve_shot_clears:
  assumes "resolve_shot A T g = Inr (keep, g')"
  shows "current_known (knowledge (actor g' w)) = None"
proof -
  have k: "\<And>f x. knowledge (hurt x f) = knowledge f" "\<And>f x. knowledge (f\<lparr>dmg_mult := x\<rparr>) = knowledge f"
    by (simp_all add: hurt_def)
  have "w = A \<or> w = other A" by (cases w; cases A) simp_all
  with assms show ?thesis
    by (auto simp add: resolve_shot_def Let_def knowledge_upd_actor k set_current_known_def
        split: prod.splits sum.splits if_splits)
qed

lemma reachable_unknown:
  "reachable g \<Longrightarrow> current_known (knowledge (actor g w)) = None"
proof (induction arbitrary: w rule: reachable.induct)
  case (reachable_init c r inp g)
  then have "knowledge (actor g w) = Knowledge_new"
    by (auto simp add: Game_init_def split: sum.splits prod.splits dest: deal_items_knowledge)
  then show ?case by (simp add: Knowledge_new_def)
next
  case (reachable_turn g g')
  show ?case
  proof (cases "skip_next (actor g (turn g))")
    case True
    with reachable_turn.hyps(4) reachable_turn.IH[of w] show ?thesis
      by (auto simp add: turn_loop_def Let_def knowledge_upd_actor)
  next
    case False
    note ns = this
    show ?thesis
    proof (cases "remaining (shotgun g) = 0")
      case True
      with ns reachable_turn.hyps(4) obtain g2 g3 where
        "deal_items g2 = Inr g3" "g' = g3\<lparr>turn := P\<rparr>"
        by (auto simp add: turn_loop_def reload_def Let_def split: sum.splits prod.splits)
      then have "deal_items g2 = Inr g3" "actor g' w = actor g3 w"
        by simp_all
      with deal_items_knowledge[of g2 g3 w] show ?thesis by (simp add: Knowledge_new_def)
    next
      case False
      with ns reachable_turn.hyps(4) obtain g2 t keep g3 where
        r: "resolve_shot (turn g) t g2 = Inr (keep, g3)" and "actor g' w = actor g3 w"
        by (auto simp add: turn_loop_def Let_def split: sum.splits prod.splits if_splits)
      with resolve_shot_clears[OF r, of w] show ?thesis by simp
    qed
  qed
qed

lemma in_turn_knows_current: "in_turn g0 g \<Longrightarrow> knows_current (turn g0) g"
proof (induction rule: in_turn.induct)
  case (enter g0)
  then show ?case by (simp add: knows_current_def reachable_unknown)
next
  case (human_item g0 g iid g1 g')
  from prompt_choose_item_knowledge[OF human_item(3)] human_item.IH
  have "knows_current (turn g0) g1" by (simp add: knows_current_def)
  with human_item(4) show ?case using item_use_knows_current by blast
next
  case (human_done g0 g g')
  from prompt_choose_item_knowledge[OF human_done(3)] human_done.IH
  show ?case by (simp add: knows_current_def)
next
  case (dealer_cigarette g0 g g')
  then show ?case using ai_steps_knows_current(1) by blast
next
  case (dealer_glass g0 g p q g')
  then show ?case using ai_steps_knows_current(2) by blast
next
  case (dealer_saw g0 g p g')
  then show ?case using ai_steps_knows_current(3) by blast
next
  case (dealer_beer g0 g g')
  then show ?case using ai_steps_knows_current(4) by blast
next
  case (dealer_handcuffs g0 g p g')
  then show ?case using ai_steps_knows_current(5) by blast
next
  case (aimed g0 g t g')
  then show ?case using aim_knows_current by blast
qed


lemma use_item_loop_in_turn:
  assumes "a = turn g0" and "\<not> ai (actor g0 (turn g0))"
  shows "in_turn g0 g \<Longrightarrow> use_item_loop a g = Inr g' \<Longrightarrow> in_turn g0 g'"
  using assms
proof (induction a g arbitrary: g' rule: use_item_loop.induct)
  case (1 a g)
  show ?case
  proof (cases "prompt_choose_item a g")
    case (Inl e)
    with "1.prems"(2) show ?thesis by (simp add: use_item_loop.simps[of a g])
  next
    case (Inr p)
    obtain x g1 where p: "p = (x, g1)" by (cases p)
    show ?thesis
    proof (cases x)
      case None
      with Inr p "1.prems"(2) have "g' = g1" by (simp add: use_item_loop.simps[of a g])
      with Inr p None "1.prems"(1,3,4) show ?thesis using human_done by blast
    next
      case (Some iid)
      show ?thesis
      proof (cases "item_use iid a (other a) g1")
        case (Inl e)
        with \<open>prompt_choose_item a g = Inr p\<close> p Some "1.prems"(2) show ?thesis
          by (simp add: use_item_loop.simps[of a g])
      next
        case (Inr g2)
        note use = this
        note pr = \<open>prompt_choose_item a g = Inr p\<close>[unfolded p Some]
        from pr use "1.prems"(2) have rest: "use_item_loop a g2 = Inr g'"
          by (simp add: use_item_loop.simps[of a g])
        from pr use "1.prems"(1,3,4) have "in_turn g0 g2" using human_item by blast
        from "1.IH"[OF pr refl refl use this rest "1.prems"(3,4)] show ?thesis .
      qed
    qed
  qed
qed

lemma ai_maybe_use_item_in_turn:
  assumes "in_turn g0 g" and "ai (actor g0 (turn g0))"
    and "ai_maybe_use_item (turn g0) g = Inr g'"
  shows "in_turn g0 g'"
proof -
  from assms(3) obtain g1 p2 g2 g3 g4 where
    s: "ai_cigarette (turn g0) g = Inr g1" "ai_glass (turn g0) (p_live_of g) g1 = Inr (p2, g2)"
    "ai_saw (turn g0) p2 g2 = Inr g3" "ai_beer (turn g0) g3 = Inr g4"
    "ai_handcuffs (turn g0) p2 g4 = Inr g'"
    by (auto simp add: ai_maybe_use_item_def Let_def split: sum.splits prod.splits)
  from assms(1,2) s(1) have "in_turn g0 g1" by (rule dealer_cigarette)
  from this assms(2) s(2) have "in_turn g0 g2" by (rule dealer_glass)
  from this assms(2) s(3) have "in_turn g0 g3" by (rule dealer_saw)
  from this assms(2) s(4) have "in_turn g0 g4" by (rule dealer_beer)
  from this assms(2) s(5) show ?thesis by (rule dealer_handcuffs)
qed

lemma turn_loop_in_turn:
  assumes "in_turn g0 g0" and "use_item_flow (turn g0) g0 = Inr gi"
    and "aim (turn g0) gi = Inr (t, ga)"
  shows "in_turn g0 gi \<and> in_turn g0 ga"
proof -
  have "in_turn g0 gi"
  proof (cases "ai (actor g0 (turn g0))")
    case True
    with assms(1,2) show ?thesis
      using ai_maybe_use_item_in_turn by (simp add: use_item_flow_def)
  next
    case False
    with assms(1,2) show ?thesis
      using use_item_loop_in_turn[of "turn g0" g0 g0 gi] by (simp add: use_item_flow_def)
  qed
  moreover from this assms(3) have "in_turn g0 ga" by (rule aimed)
  ultimately show ?thesis by simp
qed

text \<open>
  Claim C10. In every reachable state no actor holds a certainty about the chamber, and in
  every state a turn passes through before its shot, a \<open>current_known\<close> that is set is the
  shell at the cursor. This holds in particular for the state in which the shot is
  resolved, and the shot leaves both actors without a certainty. Beer and the shot clear
  both actors' \<open>current_known\<close>, the reload resets both stores, and the Inverter flips the
  user's \<open>current_known\<close> with the shell while the opponent's is unset.
\<close>

theorem current_known_accurate:
  "(reachable g \<longrightarrow> (\<forall>w. current_known (knowledge (actor g w)) = None)) \<and>
   (in_turn g0 g \<longrightarrow>
      (\<forall>w k. current_known (knowledge (actor g w)) = Some k \<longrightarrow>
             peek_current (shotgun g) = Inr k)) \<and>
   (in_turn g0 g0 \<and> use_item_flow (turn g0) g0 = Inr gi \<and> aim (turn g0) gi = Inr (t, ga) \<longrightarrow>
      (\<forall>w k. current_known (knowledge (actor ga w)) = Some k \<longrightarrow>
             peek_current (shotgun ga) = Inr k) \<and>
      (\<forall>keep g' w. resolve_shot (turn g0) t ga = Inr (keep, g') \<longrightarrow>
             current_known (knowledge (actor g' w)) = None))"
proof (intro conjI impI allI)
  fix w
  assume "reachable g"
  then show "current_known (knowledge (actor g w)) = None" by (rule reachable_unknown)
next
  fix w k
  assume "in_turn g0 g" and k: "current_known (knowledge (actor g w)) = Some k"
  then have kc: "knows_current (turn g0) g" using in_turn_knows_current by blast
  have "w = turn g0 \<or> w = other (turn g0)" by (cases w; cases "turn g0") simp_all
  with kc k show "peek_current (shotgun g) = Inr k" by (auto simp add: knows_current_def)
next
  fix w k
  assume a: "in_turn g0 g0 \<and> use_item_flow (turn g0) g0 = Inr gi \<and> aim (turn g0) gi = Inr (t, ga)"
    and k: "current_known (knowledge (actor ga w)) = Some k"
  then have "in_turn g0 ga" using turn_loop_in_turn by blast
  then have kc: "knows_current (turn g0) ga" by (rule in_turn_knows_current)
  have "w = turn g0 \<or> w = other (turn g0)" by (cases w; cases "turn g0") simp_all
  with kc k show "peek_current (shotgun ga) = Inr k" by (auto simp add: knows_current_def)
next
  fix keep g' w
  assume "resolve_shot (turn g0) t ga = Inr (keep, g')"
  then show "current_known (knowledge (actor g' w)) = None" by (rule resolve_shot_clears)
qed

theorem current_known_accurate_witness:
  "\<exists>g0 g. Game_init Config_default (\<lambda>i. if i = 4 then 0 else i) [ADigits 1] = Inr g0 \<and>
          reachable g0 \<and> in_turn g0 g \<and>
          current_known (knowledge (actor g0 P)) = None \<and>
          current_known (knowledge (actor g0 D)) = None \<and>
          item_use MAGNIFYING_GLASS P D (upd_actor P (pop_item MAGNIFYING_GLASS) (g0\<lparr>stdin := []\<rparr>))
            = Inr g \<and>
          current_known (knowledge (actor g P)) = Some BLANK \<and>
          peek_current (shotgun g) = Inr BLANK"
proof -
  let ?init = "Game_init Config_default (\<lambda>i. if i = 4 then 0 else i) [ADigits 1]"
  have ev: "(case ?init of
               Inl e \<Rightarrow> None
             | Inr g0 \<Rightarrow>
                 Some (is_alive (player g0), is_alive (dealer g0), turn g0,
                       skip_next (actor g0 P), remaining (shotgun g0), ai (actor g0 P),
                       inventory (actor g0 P), stdin g0,
                       (case item_use MAGNIFYING_GLASS P D
                               (upd_actor P (pop_item MAGNIFYING_GLASS) (g0\<lparr>stdin := []\<rparr>)) of
                          Inl e \<Rightarrow> None
                        | Inr g \<Rightarrow> Some (current_known (knowledge (actor g P))))))
            = Some (True, True, P, False, 2, False, [MAGNIFYING_GLASS, BURNER_PHONE], [ADigits 1],
                    Some (Some BLANK))"
    by code_simp
  then obtain g0 g where init: "?init = Inr g0"
    and f: "is_alive (player g0)" "is_alive (dealer g0)" "turn g0 = P" "\<not> skip_next (actor g0 P)"
      "remaining (shotgun g0) = 2" "\<not> ai (actor g0 P)"
      "inventory (actor g0 P) = [MAGNIFYING_GLASS, BURNER_PHONE]" "stdin g0 = [ADigits 1]"
    and use: "item_use MAGNIFYING_GLASS P D
                (upd_actor P (pop_item MAGNIFYING_GLASS) (g0\<lparr>stdin := []\<rparr>)) = Inr g"
    and ck: "current_known (knowledge (actor g P)) = Some BLANK"
    by (auto simp del: item_use.simps split: sum.splits)
  from init have r: "reachable g0" by (rule reachable_init)
  with f have e: "in_turn g0 g0" by (simp add: enter)
  have pr: "prompt_choose_item (turn g0) g0
      = Inr (Some MAGNIFYING_GLASS, upd_actor P (pop_item MAGNIFYING_GLASS) (g0\<lparr>stdin := []\<rparr>))"
    using f by (simp add: prompt_choose_item_def)
  from e f(3,6) pr use have it: "in_turn g0 g"
    using human_item[of g0 g0 MAGNIFYING_GLASS _ g] by simp
  from current_known_accurate[where g = g and ?g0.0 = g0] it ck
  have pk: "peek_current (shotgun g) = Inr BLANK" by blast
  from current_known_accurate[where g = g0 and ?g0.0 = g0] r
  have un: "\<forall>w. current_known (knowledge (actor g0 w)) = None" by blast
  from pk un init r it use ck show ?thesis by blast
qed

end
